theory Spec2Isabelle
  imports Complex_Main
begin

section \<open>Values and errors\<close>

text \<open>
  The exceptions the module can raise: the two it raises itself at the end of
  \<^verbatim>\<open>optics\<close>, and those of the list and array operations it uses.
\<close>

datatype error = IndexError | ValueError string | TypeError string

text \<open>
  Reachability distances and \<^verbatim>\<open>eps\<close> are floats that may be \<^verbatim>\<open>float('inf')\<close>.
  Finite floats are idealised as reals (no rounding); \<open>PInf\<close> is \<^verbatim>\<open>+inf\<close>.
  The order is the one of the float comparison.
\<close>

datatype xreal = Fin real | PInf

instantiation xreal :: linorder
begin

fun less_eq_xreal :: "xreal \<Rightarrow> xreal \<Rightarrow> bool" where
  "less_eq_xreal (Fin a) (Fin b) = (a \<le> b)"
| "less_eq_xreal (Fin a) PInf = True"
| "less_eq_xreal PInf (Fin b) = False"
| "less_eq_xreal PInf PInf = True"

definition less_xreal :: "xreal \<Rightarrow> xreal \<Rightarrow> bool" where
  "less_xreal x y = (x \<le> y \<and> \<not> y \<le> x)"

instance
proof
  fix x y z :: xreal
  show "(x < y) = (x \<le> y \<and> \<not> y \<le> x)"
    by (simp add: less_xreal_def)
  show "x \<le> x"
    by (cases x) simp_all
  show "x \<le> y \<Longrightarrow> y \<le> z \<Longrightarrow> x \<le> z"
    by (cases x; cases y; cases z) simp_all
  show "x \<le> y \<Longrightarrow> y \<le> x \<Longrightarrow> x = y"
    by (cases x; cases y) simp_all
  show "x \<le> y \<or> y \<le> x"
    by (cases x; cases y) auto
qed

end

section \<open>The numpy operations used\<close>

text \<open>
  \<^verbatim>\<open>np.argmin\<close> and \<^verbatim>\<open>np.argmax\<close> return the index of the first occurrence of
  the extreme value. On an empty array they raise \<^verbatim>\<open>ValueError\<close>: every caller below
  tests for the empty array and returns that error before it uses these functions.
\<close>

fun argmin :: "'a::linorder list \<Rightarrow> nat" where
  "argmin [] = 0"
| "argmin [x] = 0"
| "argmin (x # y # ys) = (let k = argmin (y # ys) in if (y # ys) ! k < x then Suc k else 0)"

fun argmax :: "'a::linorder list \<Rightarrow> nat" where
  "argmax [] = 0"
| "argmax [x] = 0"
| "argmax (x # y # ys) = (let k = argmax (y # ys) in if x < (y # ys) ! k then Suc k else 0)"

section \<open>The ordering loop of \<^verbatim>\<open>optics\<close>\<close>

text \<open>
  \<^verbatim>\<open>cdist([X[i]], X).reshape(len(X))\<close>: the row of distances from point \<open>i\<close> to every
  point. The distance function of \<^verbatim>\<open>scipy\<close> is the parameter \<open>d\<close>.
\<close>

definition cdist_row :: "('p \<Rightarrow> 'p \<Rightarrow> real) \<Rightarrow> 'p list \<Rightarrow> nat \<Rightarrow> real list" where
  "cdist_row d X i = map (d (X ! i)) X"

text \<open>
  The local variables of the loop. \<^verbatim>\<open>core_distances = np.ndarray(len(X))\<close> is
  uninitialised memory: an entry is \<open>None\<close> until the loop writes it.
\<close>

record ostate =
  st_seeds :: "nat list"
  st_i :: nat
  st_ordering :: "nat list"
  st_core :: "real option list"
  st_reach :: "xreal list"

text \<open>
  One iteration of \<^verbatim>\<open>while len(seeds) > 1\<close> (lines 216 to 237). \<^verbatim>\<open>seeds.remove(i)\<close>
  raises when \<open>i\<close> is absent, \<^verbatim>\<open>X[i]\<close> and \<^verbatim>\<open>np.sort(D)[min_samples]\<close> raise out of
  range, and \<^verbatim>\<open>np.argmin\<close> and \<^verbatim>\<open>seeds[0]\<close> raise when no seed is left.
  \<^verbatim>\<open>reachability_distances[neighbors] = new_reach_dists\<close> writes every neighbour's
  entry. The seeds are point indices, so \<^verbatim>\<open>D[seeds]\<close> and
  \<^verbatim>\<open>reachability_distances[seeds]\<close> are in range (lemma \<open>reachable_inv\<close> below).
\<close>

definition loop_body ::
  "('p \<Rightarrow> 'p \<Rightarrow> real) \<Rightarrow> 'p list \<Rightarrow> xreal \<Rightarrow> nat \<Rightarrow> ostate \<Rightarrow> error + ostate" where
  "loop_body d X eps min_samples st =
    (let i = st_i st in
     if i \<notin> set (st_seeds st) then Inl (ValueError ''list.remove(x): x not in list'')
     else
       let seeds = remove1 i (st_seeds st);
           ordering = st_ordering st @ [i] in
       if \<not> i < length X then Inl IndexError
       else
         let D = cdist_row d X i in
         if \<not> min_samples < length D then Inl IndexError
         else
           let core_dist = sort D ! min_samples;
               core_distances = (st_core st)[i := Some core_dist] in
           if Fin core_dist \<le> eps then
             let neighbors = filter (\<lambda>j. Fin (D ! j) \<le> eps) seeds;
                 reachability_distances =
                   fold (\<lambda>j r. r[j := Fin (max core_dist (D ! j))]) neighbors (st_reach st)
             in
               if seeds = []
               then Inl (ValueError ''attempt to get argmin of an empty sequence'')
               else
                 Inr \<lparr>st_seeds = seeds,
                      st_i = seeds ! argmin (map (\<lambda>j. reachability_distances ! j) seeds),
                      st_ordering = ordering, st_core = core_distances,
                      st_reach = reachability_distances\<rparr>
           else if seeds = [] then Inl IndexError
           else
             Inr \<lparr>st_seeds = seeds, st_i = seeds ! 0, st_ordering = ordering,
                  st_core = core_distances, st_reach = st_reach st\<rparr>)"

function optics_loop ::
  "('p \<Rightarrow> 'p \<Rightarrow> real) \<Rightarrow> 'p list \<Rightarrow> xreal \<Rightarrow> nat \<Rightarrow> ostate \<Rightarrow> error + ostate" where
  "optics_loop d X eps min_samples st =
    (if 1 < length (st_seeds st) then
       (case loop_body d X eps min_samples st of
          Inl e \<Rightarrow> Inl e
        | Inr st' \<Rightarrow> optics_loop d X eps min_samples st')
     else Inr st)"
  by pat_completeness auto
termination
proof (relation "measure (\<lambda>(d, X, eps, min_samples, st). length (st_seeds st))")
  show "wf (measure (\<lambda>(d, X, eps, min_samples, st). length (st_seeds st)))"
    by simp
next
  fix d :: "'p \<Rightarrow> 'p \<Rightarrow> real" and X eps min_samples st st'
  assume "1 < length (st_seeds st)" and "loop_body d X eps min_samples st = Inr st'"
  then show "((d, X, eps, min_samples, st'), (d, X, eps, min_samples, st))
      \<in> measure (\<lambda>(d, X, eps, min_samples, st). length (st_seeds st))"
    by (auto simp: loop_body_def Let_def length_remove1 split: if_splits)
qed

declare optics_loop.simps [simp del]

text \<open>
  Lines 205 to 241: initialisation, the loop, the last point and the reachability of
  point 0. The result is \<^verbatim>\<open>(core_distances, ordering, reachability_distances)\<close>.
  \<^verbatim>\<open>min_samples\<close> is a number of samples, a natural number.
\<close>

definition init_state :: "nat \<Rightarrow> ostate" where
  "init_state n = \<lparr>st_seeds = [0..<n], st_i = 0, st_ordering = [],
     st_core = replicate n None, st_reach = replicate n PInf\<rparr>"

definition optics_order ::
  "('p \<Rightarrow> 'p \<Rightarrow> real) \<Rightarrow> 'p list \<Rightarrow> xreal \<Rightarrow> nat \<Rightarrow>
     error + (real option list \<times> nat list \<times> xreal list)" where
  "optics_order d X eps min_samples =
    (case optics_loop d X eps min_samples (init_state (length X)) of
       Inl e \<Rightarrow> Inl e
     | Inr st \<Rightarrow>
         if st_seeds st = [] then Inl IndexError
         else
           let ordering = st_ordering st @ [st_seeds st ! 0] in
           if st_reach st = [] then Inl IndexError
           else Inr (st_core st, ordering, (st_reach st)[0 := Fin 0]))"

text \<open>
  The states the loop passes through: the initial one, and the one after each iteration
  that the loop condition lets through and that does not raise.
\<close>

inductive reachable ::
  "('p \<Rightarrow> 'p \<Rightarrow> real) \<Rightarrow> 'p list \<Rightarrow> xreal \<Rightarrow> nat \<Rightarrow> ostate \<Rightarrow> bool"
  for d X eps min_samples where
  reach_init: "reachable d X eps min_samples (init_state (length X))"
| reach_step: "reachable d X eps min_samples st \<Longrightarrow> 1 < length (st_seeds st) \<Longrightarrow>
     loop_body d X eps min_samples st = Inr st' \<Longrightarrow> reachable d X eps min_samples st'"

text \<open>
  The loop invariant: the seeds are in ascending order, seeds and ordering split the
  point indices, the current point is a seed, and point 0 is the first to be ordered.
\<close>

definition loop_inv :: "nat \<Rightarrow> ostate \<Rightarrow> bool" where
  "loop_inv n st \<longleftrightarrow>
     sorted_wrt (<) (st_seeds st) \<and> distinct (st_ordering st) \<and>
     set (st_seeds st) \<union> set (st_ordering st) = {..<n} \<and>
     set (st_seeds st) \<inter> set (st_ordering st) = {} \<and>
     (st_seeds st \<noteq> [] \<longrightarrow> st_i st \<in> set (st_seeds st)) \<and>
     length (st_core st) = n \<and> length (st_reach st) = n \<and>
     (st_ordering st = [] \<longrightarrow> st_i st = 0) \<and>
     (st_ordering st \<noteq> [] \<longrightarrow> st_ordering st ! 0 = 0)"

text \<open>
  The Euclidean distance between points on a line, for the concrete runs below.
\<close>

definition line_dist :: "real \<Rightarrow> real \<Rightarrow> real" where
  "line_dist x y = \<bar>x - y\<bar>"

section \<open>Python indexing and float arithmetic\<close>

text \<open>
  \<^verbatim>\<open>xs[k]\<close> accepts \<open>-len \<le> k < len\<close> and counts a negative index from the end;
  anything else raises \<^verbatim>\<open>IndexError\<close>.
\<close>

definition valid_index :: "nat \<Rightarrow> int \<Rightarrow> bool" where
  "valid_index n k \<longleftrightarrow> - int n \<le> k \<and> k < int n"

definition at_index :: "'a list \<Rightarrow> int \<Rightarrow> 'a" where
  "at_index xs k = xs ! nat (if k < 0 then k + int (length xs) else k)"

definition py_index :: "'a list \<Rightarrow> int \<Rightarrow> error + 'a" where
  "py_index xs k = (if valid_index (length xs) k then Inr (at_index xs k) else Inl IndexError)"

text \<open>
  \<^verbatim>\<open>xs[a:b]\<close>: a negative bound counts from the end, and both bounds are clamped to
  \<open>[0, len]\<close>; the slice is empty when the bounds cross.
\<close>

definition slice_bound :: "nat \<Rightarrow> int \<Rightarrow> nat" where
  "slice_bound n k = (if k < 0 then nat (k + int n) else min n (nat k))"

definition py_slice :: "'a list \<Rightarrow> int \<Rightarrow> int \<Rightarrow> 'a list" where
  "py_slice xs a b =
    (let lo = slice_bound (length xs) a; hi = slice_bound (length xs) b
     in take (hi - lo) (drop lo xs))"

definition np_argmax :: "xreal list \<Rightarrow> error + nat" where
  "np_argmax xs =
    (if xs = [] then Inl (ValueError ''attempt to get argmax of an empty sequence'')
     else Inr (argmax xs))"

text \<open>
  A loop whose body may raise: the first exception ends the loop.
\<close>

fun foldE :: "('a \<Rightarrow> 'b \<Rightarrow> error + 'b) \<Rightarrow> 'a list \<Rightarrow> 'b \<Rightarrow> error + 'b" where
  "foldE f [] b = Inr b"
| "foldE f (x # xs) b = (case f x b of Inl e \<Rightarrow> Inl e | Inr b' \<Rightarrow> foldE f xs b')"

text \<open>
  The results of the float arithmetic of the extraction: a product, a quotient and a
  mean can be infinite or \<^verbatim>\<open>nan\<close>. Every comparison with \<^verbatim>\<open>nan\<close> is false.
  Rounding and the sign of zero are not modelled.
\<close>

datatype fl = Num real | PosInf | NegInf | NaN

fun to_fl :: "xreal \<Rightarrow> fl" where
  "to_fl (Fin r) = Num r"
| "to_fl PInf = PosInf"

fun fl_le :: "fl \<Rightarrow> fl \<Rightarrow> bool" where
  "fl_le NaN _ = False"
| "fl_le _ NaN = False"
| "fl_le NegInf _ = True"
| "fl_le _ PosInf = True"
| "fl_le (Num a) (Num b) = (a \<le> b)"
| "fl_le _ _ = False"

text \<open>\<^verbatim>\<open>ratio * x\<close> for a finite ratio.\<close>

fun fl_scale :: "real \<Rightarrow> xreal \<Rightarrow> fl" where
  "fl_scale a (Fin r) = Num (a * r)"
| "fl_scale a PInf = (if 0 < a then PosInf else if a < 0 then NegInf else NaN)"

text \<open>\<^verbatim>\<open>x / y\<close> on \<^verbatim>\<open>np.float64\<close>: a division by zero gives an infinity or \<^verbatim>\<open>nan\<close>.\<close>

fun fl_div :: "xreal \<Rightarrow> xreal \<Rightarrow> fl" where
  "fl_div (Fin a) (Fin b) =
     (if b \<noteq> 0 then Num (a / b)
      else if 0 < a then PosInf else if a < 0 then NegInf else NaN)"
| "fl_div (Fin a) PInf = Num 0"
| "fl_div PInf (Fin b) = (if b < 0 then NegInf else PosInf)"
| "fl_div PInf PInf = NaN"

text \<open>\<^verbatim>\<open>np.mean\<close> of a non-empty array without \<^verbatim>\<open>nan\<close> and \<^verbatim>\<open>-inf\<close>.\<close>

definition finite_part :: "xreal \<Rightarrow> real" where
  "finite_part x = (case x of Fin r \<Rightarrow> r | PInf \<Rightarrow> 0)"

definition np_mean :: "xreal list \<Rightarrow> xreal" where
  "np_mean xs =
    (if PInf \<in> set xs then PInf
     else Fin (sum_list (map finite_part xs) / real (length xs)))"

section \<open>\<^verbatim>\<open>hierarchical_extraction\<close>\<close>

text \<open>
  Lines 62 to 70, the local maxima. Positions are Python integers:
  \<^verbatim>\<open>n - 2 * min_cluster_size + i\<close> and \<^verbatim>\<open>n - min_cluster_size + i\<close> can be negative.
  The first loop appends position \<open>i\<close> and then position \<open>n - min_cluster_size + i\<close>.
\<close>

definition boundary_step :: "xreal list \<Rightarrow> nat \<Rightarrow> nat \<Rightarrow> int list \<Rightarrow> error + int list" where
  "boundary_step R min_cluster_size i L =
    (let n = length R in
     case np_argmax (py_slice R 0 (int i + int min_cluster_size + 1)) of
       Inl e \<Rightarrow> Inl e
     | Inr a \<Rightarrow>
         let L1 = (if a = i then L @ [int i] else L) in
         case np_argmax (py_slice R (int n - 2 * int min_cluster_size + int i) (int n)) of
           Inl e \<Rightarrow> Inl e
         | Inr b \<Rightarrow>
             Inr (if b = i then L1 @ [int n - int min_cluster_size + int i] else L1))"

definition interior_step :: "xreal list \<Rightarrow> nat \<Rightarrow> nat \<Rightarrow> int list \<Rightarrow> error + int list" where
  "interior_step R min_cluster_size i L =
    (case np_argmax (py_slice R (int i - int min_cluster_size)
                       (int i + int min_cluster_size + 1)) of
       Inl e \<Rightarrow> Inl e
     | Inr a \<Rightarrow> Inr (if a = min_cluster_size then L @ [int i] else L))"

definition local_maxima :: "xreal list \<Rightarrow> nat \<Rightarrow> error + int list" where
  "local_maxima R min_cluster_size =
    (case foldE (boundary_step R min_cluster_size) [0..<min_cluster_size] [] of
       Inl e \<Rightarrow> Inl e
     | Inr L \<Rightarrow>
         foldE (interior_step R min_cluster_size)
           [min_cluster_size..<length R - min_cluster_size] L)"

text \<open>
  Lines 72 to 74: the stable sort by reachability, \<^verbatim>\<open>R_max\<close> and the filter.
  \<^verbatim>\<open>R[x]\<close> raises for a position out of range and \<^verbatim>\<open>L[-1]\<close> for an empty list.
\<close>

definition split_stack :: "xreal list \<Rightarrow> real \<Rightarrow> int list \<Rightarrow> error + int list" where
  "split_stack R min_reach_ratio L =
    (if \<not> (\<forall>x \<in> set L. valid_index (length R) x) then Inl IndexError
     else
       let L = sort_key (at_index R) L in
       if L = [] then Inl IndexError
       else
         let R_max = at_index R (last L)
         in Inr (filter (\<lambda>x. fl_le (fl_scale min_reach_ratio R_max) (to_fl (at_index R x))) L))"

text \<open>
  Lines 83 to 129, \<^verbatim>\<open>cluster_tree\<close>. A node is its range \<open>(left, right)\<close>. Of the
  parent only \<^verbatim>\<open>parent.split\<close> is read, so the parent is its split position, \<open>None\<close>
  for the root. The \<^verbatim>\<open>children\<close> lists of the nodes are written and never read for
  the result; the result is the list \<^verbatim>\<open>leaves\<close>, in the order of the appends.
  \<^verbatim>\<open>L.pop()\<close> takes the last candidate. The list \<^verbatim>\<open>children\<close> of line 106 holds
  the left child, if kept, and then the right child, if kept.
\<close>

function cluster_tree ::
  "xreal list \<Rightarrow> nat \<Rightarrow> real \<Rightarrow> real \<Rightarrow> int \<times> int \<Rightarrow> int option \<Rightarrow> int list \<Rightarrow>
     (int \<times> int) list" where
  "cluster_tree R min_cluster_size significant_ratio similarity_ratio node parent L =
    (if L = [] then [node]
     else
       let n = length R;
           s = last L;
           L' = butlast L;
           child_left = (fst node, s);
           child_right = (s, snd node);
           L_left = filter (\<lambda>x. x < s) L';
           L_right = filter (\<lambda>x. s < x) L';
           R_left = py_slice R (fst child_left) (snd child_left);
           R_right = py_slice R (fst child_right) (snd child_right);
           avg_reach_left = (if R_left \<noteq> [] then np_mean R_left else Fin 0);
           avg_reach_right = (if R_right \<noteq> [] then np_mean R_right else Fin 0)
       in
         if fl_le (to_fl avg_reach_left) (fl_scale significant_ratio (at_index R s)) \<and>
            fl_le (to_fl avg_reach_right) (fl_scale significant_ratio (at_index R s))
         then
           let left_size = snd child_left - fst child_left;
               keep_left = (int min_cluster_size \<le> left_size \<or> left_size = snd child_left);
               right_size = snd child_right - fst child_right;
               keep_right = (int min_cluster_size \<le> right_size \<or>
                             right_size = int n - fst child_right)
           in
             if \<not> keep_left \<and> \<not> keep_right then [node]
             else
               let p = (case parent of
                          None \<Rightarrow> Some s
                        | Some ps \<Rightarrow>
                            if fl_le (Num similarity_ratio)
                                 (fl_div (at_index R s) (at_index R ps))
                            then Some ps else Some s)
               in
                 (if keep_left
                  then cluster_tree R min_cluster_size significant_ratio similarity_ratio
                         child_left p L_left
                  else []) @
                 (if keep_right
                  then cluster_tree R min_cluster_size significant_ratio similarity_ratio
                         child_right p L_right
                  else [])
         else cluster_tree R min_cluster_size significant_ratio similarity_ratio
                node parent L')"
  by pat_completeness auto
termination
proof -
  have shorter: "length (filter P (butlast L)) < length L" if "L \<noteq> []"
    for P and L :: "int list"
  proof -
    from that have "length (butlast L) < length L" by simp
    with length_filter_le [of P "butlast L"] show ?thesis by linarith
  qed
  show ?thesis
    by (relation "measure (\<lambda>(R, m, sg, sm, node, parent, L). length L)")
      (auto simp: shorter)
qed

declare cluster_tree.simps [simp del]

text \<open>
  Lines 134 to 137, the labels. A label is \<open>-1\<close> or the index of a leaf; the source
  holds them in a float array, and they are integers here.
  \<^verbatim>\<open>ordering[j]\<close> and \<^verbatim>\<open>labels[...]\<close> raise out of range.
\<close>

definition label_step :: "nat list \<Rightarrow> nat \<Rightarrow> int \<Rightarrow> int list \<Rightarrow> error + int list" where
  "label_step ordering' i j labels =
    (case py_index ordering' j of
       Inl e \<Rightarrow> Inl e
     | Inr p \<Rightarrow> if p < length labels then Inr (labels[p := int i]) else Inl IndexError)"

definition label_leaf :: "nat list \<Rightarrow> nat \<times> (int \<times> int) \<Rightarrow> int list \<Rightarrow> error + int list" where
  "label_leaf ordering' il labels =
    foldE (label_step ordering' (fst il)) [fst (snd il)..snd (snd il) - 1] labels"

definition label_leaves :: "nat list \<Rightarrow> (int \<times> int) list \<Rightarrow> error + int list" where
  "label_leaves ordering' leaves =
    foldE (label_leaf ordering') (enumerate 0 leaves) (replicate (length ordering') (- 1))"

text \<open>
  The plot \<^verbatim>\<open>R\<close> of line 58, an array of floats, and the leaves of line 132. The
  entries of \<^verbatim>\<open>ordering\<close> are point indices, and \<^verbatim>\<open>min_cluster_size\<close> is a number
  of samples: both are natural numbers.
\<close>

definition reachability_plot :: "nat list \<Rightarrow> xreal list \<Rightarrow> error + xreal list" where
  "reachability_plot ordering' reachability_distances =
    (if \<forall>i \<in> set ordering'. i < length reachability_distances
     then Inr (map (\<lambda>i. reachability_distances ! i) ordering')
     else Inl IndexError)"

definition extraction_leaves ::
  "nat list \<Rightarrow> xreal list \<Rightarrow> nat \<Rightarrow> real \<Rightarrow> real \<Rightarrow> real \<Rightarrow> error + (int \<times> int) list" where
  "extraction_leaves ordering' reachability_distances min_cluster_size
     significant_ratio similarity_ratio min_reach_ratio =
    (case reachability_plot ordering' reachability_distances of
       Inl e \<Rightarrow> Inl e
     | Inr R \<Rightarrow>
         (case local_maxima R min_cluster_size of
            Inl e \<Rightarrow> Inl e
          | Inr L \<Rightarrow>
              (case split_stack R min_reach_ratio L of
                 Inl e \<Rightarrow> Inl e
               | Inr L \<Rightarrow>
                   Inr (cluster_tree R min_cluster_size significant_ratio similarity_ratio
                          (0, int (length ordering')) None L))))"

definition hierarchical_extraction ::
  "nat list \<Rightarrow> xreal list \<Rightarrow> nat \<Rightarrow> real \<Rightarrow> real \<Rightarrow> real \<Rightarrow> error + int list" where
  "hierarchical_extraction ordering' reachability_distances min_cluster_size
     significant_ratio similarity_ratio min_reach_ratio =
    (case extraction_leaves ordering' reachability_distances min_cluster_size
            significant_ratio similarity_ratio min_reach_ratio of
       Inl e \<Rightarrow> Inl e
     | Inr leaves \<Rightarrow> label_leaves ordering' leaves)"

section \<open>The entry point \<^verbatim>\<open>optics\<close>\<close>

text \<open>
  The call \<^verbatim>\<open>func(ordering, reachability_distances, min_samples, **ext_kwargs)\<close> of
  line 247. The three positional arguments fill \<^verbatim>\<open>ordering\<close>,
  \<^verbatim>\<open>reachability_distances\<close> and \<^verbatim>\<open>min_cluster_size\<close>. A keyword that names one
  of them, or that names no parameter, raises \<^verbatim>\<open>TypeError\<close>; a ratio that is not
  given takes its default. \<open>ext_kwargs\<close> lists the items of the dictionary.
\<close>

fun check_kwargs :: "(string \<times> real) list \<Rightarrow> error option" where
  "check_kwargs [] = None"
| "check_kwargs ((k, v) # kw) =
    (if k \<in> {''ordering'', ''reachability_distances'', ''min_cluster_size''}
     then Some (TypeError ''got multiple values for keyword argument'')
     else if k \<notin> {''significant_ratio'', ''similarity_ratio'', ''min_reach_ratio''}
     then Some (TypeError ''got an unexpected keyword argument'')
     else check_kwargs kw)"

definition kwarg :: "(string \<times> real) list \<Rightarrow> string \<Rightarrow> real \<Rightarrow> real" where
  "kwarg kw k dflt = (case map_of kw k of Some v \<Rightarrow> v | None \<Rightarrow> dflt)"

definition call_hierarchical ::
  "nat list \<Rightarrow> xreal list \<Rightarrow> nat \<Rightarrow> (string \<times> real) list \<Rightarrow> error + int list" where
  "call_hierarchical ordering' reachability_distances min_samples ext_kwargs =
    (case check_kwargs ext_kwargs of
       Some e \<Rightarrow> Inl e
     | None \<Rightarrow>
         hierarchical_extraction ordering' reachability_distances min_samples
           (kwarg ext_kwargs ''significant_ratio'' 0.75)
           (kwarg ext_kwargs ''similarity_ratio'' 0.4)
           (kwarg ext_kwargs ''min_reach_ratio'' 0.1))"

text \<open>The registry of line 141.\<close>

definition EXTRACTION_FUNCTIONS ::
  "(string \<times> (nat list \<Rightarrow> xreal list \<Rightarrow> nat \<Rightarrow> (string \<times> real) list \<Rightarrow> error + int list)) list"
  where
  "EXTRACTION_FUNCTIONS = [(''hierarchical'', call_hierarchical)]"

text \<open>
  The value given for \<^verbatim>\<open>extraction\<close>: \<^verbatim>\<open>type(extraction) is str\<close> holds for a byte
  string only. \<^verbatim>\<open>str.lower\<close> maps the letters A to Z.
\<close>

datatype pyvalue = Str string | Unicode string | IntVal int | NoneVal

definition lower_char :: "char \<Rightarrow> char" where
  "lower_char c =
    (let k = of_char c :: nat in if 65 \<le> k \<and> k \<le> 90 then char_of (k + 32) else c)"

definition lower :: "string \<Rightarrow> string" where
  "lower s = map lower_char s"

text \<open>
  Lines 205 to 254. The ordering loop runs first; the extraction is looked up after it.
  The argument \<^verbatim>\<open>metric\<close> is not used by the code: the distance is the one of
  \<^verbatim>\<open>cdist\<close>, the parameter \<open>d\<close>.
\<close>

definition optics ::
  "('p \<Rightarrow> 'p \<Rightarrow> real) \<Rightarrow> 'p list \<Rightarrow> xreal \<Rightarrow> nat \<Rightarrow> pyvalue \<Rightarrow> (string \<times> real) list \<Rightarrow>
     error + (real option list \<times> nat list \<times> xreal list \<times> int list)" where
  "optics d X eps min_samples extraction ext_kwargs =
    (case optics_order d X eps min_samples of
       Inl e \<Rightarrow> Inl e
     | Inr (core_distances, ordering', reachability_distances) \<Rightarrow>
         (case extraction of
            Str name \<Rightarrow>
              let estr = lower name in
              (case map_of EXTRACTION_FUNCTIONS estr of
                 Some func \<Rightarrow>
                   (case func ordering' reachability_distances min_samples ext_kwargs of
                      Inl e \<Rightarrow> Inl e
                    | Inr labels \<Rightarrow>
                        Inr (core_distances, ordering', reachability_distances, labels))
               | None \<Rightarrow> Inl (ValueError (''Unknown Extraction Method: '' @ estr)))
          | _ \<Rightarrow> Inl (TypeError ''Extraction Method must be a string.'')))"

section \<open>Notions for the statements about the extraction\<close>

text \<open>
  A list of ranges that follow each other from left to right inside \<open>[lo, hi]\<close>: each
  range starts at or after the end of the one before it.
\<close>

fun ascending_ranges :: "int \<Rightarrow> int \<Rightarrow> (int \<times> int) list \<Rightarrow> bool" where
  "ascending_ranges lo hi [] = (lo \<le> hi)"
| "ascending_ranges lo hi (l # ls) =
     (lo \<le> fst l \<and> fst l \<le> snd l \<and> ascending_ranges (snd l) hi ls)"

text \<open>
  Names for the tests of \<^verbatim>\<open>cluster_tree\<close>: the significance test of line 105, the
  size tests of lines 108 and 111, and the parent handed to the children (lines 117
  to 125).
\<close>

definition significant :: "xreal list \<Rightarrow> real \<Rightarrow> int \<times> int \<Rightarrow> int \<Rightarrow> bool" where
  "significant R sg node s \<longleftrightarrow>
     fl_le (to_fl (if py_slice R (fst node) s \<noteq> [] then np_mean (py_slice R (fst node) s) else Fin 0))
           (fl_scale sg (at_index R s)) \<and>
     fl_le (to_fl (if py_slice R s (snd node) \<noteq> [] then np_mean (py_slice R s (snd node)) else Fin 0))
           (fl_scale sg (at_index R s))"

definition keep_left :: "nat \<Rightarrow> int \<times> int \<Rightarrow> int \<Rightarrow> bool" where
  "keep_left m node s \<longleftrightarrow> int m \<le> s - fst node \<or> s - fst node = s"

definition keep_right :: "xreal list \<Rightarrow> nat \<Rightarrow> int \<times> int \<Rightarrow> int \<Rightarrow> bool" where
  "keep_right R m node s \<longleftrightarrow> int m \<le> snd node - s \<or> snd node - s = int (length R) - s"

definition next_parent :: "xreal list \<Rightarrow> real \<Rightarrow> int option \<Rightarrow> int \<Rightarrow> int option" where
  "next_parent R sm parent s =
     (case parent of None \<Rightarrow> Some s
      | Some ps \<Rightarrow> if fl_le (Num sm) (fl_div (at_index R s) (at_index R ps)) then Some ps else Some s)"

text \<open>
  Every range of the list is non-empty, except possibly a first range \<open>(lo, lo)\<close>.
\<close>

definition first_empty_only :: "int \<Rightarrow> (int \<times> int) list \<Rightarrow> bool" where
  "first_empty_only lo ls \<longleftrightarrow>
     (\<forall>l \<in> set ls. fst l < snd l) \<or>
     (\<exists>ls'. ls = (lo, lo) # ls' \<and> (\<forall>l \<in> set ls'. fst l < snd l))"

text \<open>The candidate positions are positions of the plot.\<close>

definition in_plot :: "nat \<Rightarrow> int list \<Rightarrow> bool" where
  "in_plot n L \<longleftrightarrow> (\<forall>x \<in> set L. 0 \<le> x \<and> x < int n)"

text \<open>The points that a leaf labels: \<^verbatim>\<open>ordering[j]\<close> for \<open>j\<close> in the range of the leaf.\<close>

definition leaf_points :: "nat list \<Rightarrow> int \<times> int \<Rightarrow> nat set" where
  "leaf_points ord l = at_index ord ` {fst l..<snd l}"

section \<open>Properties of the ordering loop\<close>

lemma argmin_less: "xs \<noteq> [] \<Longrightarrow> argmin xs < length xs"
  by (induction xs rule: argmin.induct) (auto simp: Let_def)

lemma length_fold_update: "length (fold (\<lambda>j r. r[j := f j]) js r) = length r"
  by (induction js arbitrary: r) simp_all

lemma nth_fold_update:
  "k < length r \<Longrightarrow> fold (\<lambda>j r. r[j := f j]) js r ! k = (if k \<in> set js then f k else r ! k)"
  by (induction js arbitrary: r) (auto simp: length_fold_update nth_list_update)

lemma loop_inv_init: "loop_inv n (init_state n)"
  by (auto simp: loop_inv_def init_state_def atLeast0LessThan)

lemma nth_argmin_mem: "xs \<noteq> [] \<Longrightarrow> xs ! argmin (map f xs) \<in> set xs"
  using argmin_less [of "map f xs"] by simp

lemma nth0_mem: "xs \<noteq> [] \<Longrightarrow> xs ! 0 \<in> set xs"
  by (cases xs) simp_all

lemma loop_body_fields:
  assumes "loop_body d X eps min_samples st = Inr st'"
  shows "st_i st \<in> set (st_seeds st)"
    and "st_seeds st' = remove1 (st_i st) (st_seeds st)"
    and "st_ordering st' = st_ordering st @ [st_i st]"
    and "length (st_core st') = length (st_core st)"
    and "length (st_reach st') = length (st_reach st)"
    and "st_i st < length X" and "min_samples < length X"
    and "st_seeds st' \<noteq> [] \<Longrightarrow> st_i st' \<in> set (st_seeds st')"
proof -
  from assms show "st_i st \<in> set (st_seeds st)"
    by (simp add: loop_body_def Let_def split: if_splits)
  from assms show "st_seeds st' = remove1 (st_i st) (st_seeds st)"
    by (auto simp add: loop_body_def Let_def split: if_splits)
  from assms show "st_ordering st' = st_ordering st @ [st_i st]"
    by (auto simp add: loop_body_def Let_def split: if_splits)
  from assms show "length (st_core st') = length (st_core st)"
    by (auto simp add: loop_body_def Let_def split: if_splits)
  from assms show "length (st_reach st') = length (st_reach st)"
    by (auto simp add: loop_body_def Let_def length_fold_update split: if_splits)
  from assms show "st_i st < length X"
    by (simp add: loop_body_def Let_def split: if_splits)
  from assms show "min_samples < length X"
    by (simp add: loop_body_def Let_def cdist_row_def split: if_splits)
  assume "st_seeds st' \<noteq> []"
  with assms show "st_i st' \<in> set (st_seeds st')"
    by (auto simp add: loop_body_def Let_def nth_argmin_mem nth0_mem
        simp del: set_remove1_eq split: if_splits)
qed

lemma loop_inv_step:
  assumes inv: "loop_inv n st" and body: "loop_body d X eps min_samples st = Inr st'"
  shows "loop_inv n st'"
proof -
  note f = loop_body_fields [OF body]
  have d: "distinct (st_seeds st)"
    using inv by (simp add: loop_inv_def strict_sorted_iff)
  have "sorted_wrt (<) (st_seeds st')"
    using inv f(2) d by (simp add: loop_inv_def strict_sorted_iff sorted_remove1)
  moreover have "distinct (st_ordering st')"
    using inv f(1,3) by (auto simp: loop_inv_def)
  moreover have "set (st_seeds st') \<union> set (st_ordering st') = {..<n}"
    using inv f(1,2,3) d by (auto simp: loop_inv_def)
  moreover have "set (st_seeds st') \<inter> set (st_ordering st') = {}"
    using inv f(1,2,3) d by (auto simp: loop_inv_def)
  moreover have "st_ordering st' ! 0 = 0"
    using inv f(3) by (cases "st_ordering st") (auto simp: loop_inv_def)
  ultimately show ?thesis
    using inv f(3,4,5,8) by (simp add: loop_inv_def)
qed

lemma reachable_inv: "reachable d X eps min_samples st \<Longrightarrow> loop_inv (length X) st"
  by (induction rule: reachable.induct) (auto intro: loop_inv_init loop_inv_step)

lemma optics_loop_reachable:
  "reachable d X eps min_samples st \<Longrightarrow> optics_loop d X eps min_samples st = Inr st' \<Longrightarrow>
     reachable d X eps min_samples st' \<and> length (st_seeds st') \<le> 1"
proof (induction d X eps min_samples st rule: optics_loop.induct)
  case (1 d X eps min_samples st)
  show ?case
  proof (cases "1 < length (st_seeds st)")
    case True
    with "1.prems"(2) obtain s where s: "loop_body d X eps min_samples st = Inr s"
      and l: "optics_loop d X eps min_samples s = Inr st'"
      by (subst (asm) optics_loop.simps) (auto split: sum.splits)
    from "1.prems"(1) True s have "reachable d X eps min_samples s"
      by (rule reach_step)
    with "1.IH" [OF True s] l show ?thesis by blast
  next
    case False
    with "1.prems" show ?thesis
      by (subst (asm) optics_loop.simps) auto
  qed
qed

lemma optics_order_final:
  assumes "optics_order d X eps min_samples = Inr (cd, ord, rd)"
  obtains st x where "reachable d X eps min_samples st" and "st_seeds st = [x]"
    and "cd = st_core st" and "ord = st_ordering st @ [x]" and "rd = (st_reach st)[0 := Fin 0]"
proof -
  from assms obtain st where l: "optics_loop d X eps min_samples (init_state (length X)) = Inr st"
    and ne: "st_seeds st \<noteq> []" and r: "cd = st_core st" "ord = st_ordering st @ [st_seeds st ! 0]"
      "rd = (st_reach st)[0 := Fin 0]"
    by (auto simp: optics_order_def Let_def split: sum.splits if_splits)
  from optics_loop_reachable [OF reach_init l]
  have re: "reachable d X eps min_samples st" and le: "length (st_seeds st) \<le> 1" by auto
  from ne le obtain x where "st_seeds st = [x]"
    by (cases "st_seeds st") auto
  with re r that show ?thesis by auto
qed

lemma loop_body_total:
  "st_i st \<in> set (st_seeds st) \<Longrightarrow> st_i st < length X \<Longrightarrow> min_samples < length X \<Longrightarrow>
     1 < length (st_seeds st) \<Longrightarrow> \<exists>s. loop_body d X eps min_samples st = Inr s"
proof -
  assume a: "st_i st \<in> set (st_seeds st)" "st_i st < length X" "min_samples < length X"
    and l: "1 < length (st_seeds st)"
  from a(1) l have "length (remove1 (st_i st) (st_seeds st)) = length (st_seeds st) - 1"
    by (simp add: length_remove1)
  with l have "remove1 (st_i st) (st_seeds st) \<noteq> []" by auto
  with a show ?thesis
    by (simp add: loop_body_def Let_def cdist_row_def)
qed

lemma optics_loop_total:
  "loop_inv (length X) st \<Longrightarrow> min_samples < length X \<or> length (st_seeds st) \<le> 1 \<Longrightarrow>
     \<exists>st'. optics_loop d X eps min_samples st = Inr st'"
proof (induction d X eps min_samples st rule: optics_loop.induct)
  case (1 d X eps min_samples st)
  show ?case
  proof (cases "1 < length (st_seeds st)")
    case True
    then have ne: "st_seeds st \<noteq> []" by auto
    from True "1.prems"(2) have ms: "min_samples < length X" by auto
    from ne "1.prems"(1) have i: "st_i st \<in> set (st_seeds st)" "st_i st < length X"
      by (auto simp: loop_inv_def)
    from loop_body_total [OF i ms True]
    obtain s where s: "loop_body d X eps min_samples st = Inr s" by blast
    from loop_inv_step [OF "1.prems"(1) s] "1.IH" [OF True s] ms
    obtain st' where "optics_loop d X eps min_samples s = Inr st'" by blast
    with True s show ?thesis
      by (subst optics_loop.simps) simp
  next
    case False
    then show ?thesis by (subst optics_loop.simps) simp
  qed
qed

lemma reachable_seeds_nonempty:
  "reachable d X eps min_samples st \<Longrightarrow> X \<noteq> [] \<Longrightarrow> st_seeds st \<noteq> []"
proof (induction rule: reachable.induct)
  case reach_init
  then show ?case by (simp add: init_state_def)
next
  case (reach_step st st')
  from loop_body_fields(2) [OF reach_step(3)] reach_step(2)
  have "length (st_seeds st') = length (st_seeds st) - 1"
    using loop_body_fields(1) [OF reach_step(3)] by (simp add: length_remove1)
  with reach_step(2) show ?case by auto
qed

lemma optics_order_total:
  assumes "min_samples < length X \<or> length X = 1"
  shows "\<exists>cd ord rd. optics_order d X eps min_samples = Inr (cd, ord, rd)"
proof -
  from assms have "min_samples < length X \<or> length (st_seeds (init_state (length X))) \<le> 1"
    by (auto simp: init_state_def)
  from optics_loop_total [OF loop_inv_init this]
  obtain st where l: "optics_loop d X eps min_samples (init_state (length X)) = Inr st" by blast
  from optics_loop_reachable [OF reach_init l] have re: "reachable d X eps min_samples st"
    by simp
  from assms have "X \<noteq> []" by auto
  with re have "st_seeds st \<noteq> []" by (rule reachable_seeds_nonempty)
  moreover from reachable_inv [OF re] assms have "st_reach st \<noteq> []"
    by (auto simp: loop_inv_def)
  ultimately show ?thesis using l
    by (simp add: optics_order_def Let_def)
qed

lemma optics_order_perm:
  assumes "optics_order d X eps min_samples = Inr (cd, ord, rd)"
  shows "length ord = length X" and "distinct ord" and "set ord = {..<length X}"
proof -
  from assms obtain st x where re: "reachable d X eps min_samples st" and s: "st_seeds st = [x]"
    and o: "ord = st_ordering st @ [x]"
    by (rule optics_order_final)
  from reachable_inv [OF re] s o show "distinct ord" "set ord = {..<length X}"
    by (auto simp: loop_inv_def)
  then show "length ord = length X"
    using distinct_card [of ord] by simp
qed

lemma run_line3:
  "optics_order line_dist [0, 1, - 2] PInf 1 =
     Inr ([Some 1, Some 1, None], [0, 1, 2], [Fin 0, Fin 1, Fin 3])"
  by code_simp

text \<open>
  C5. Whenever the ordering engine returns, the ordering has as many entries as there are
  points, has no duplicate and contains every point index below that number; and it does
  return on every input with more points than \<open>min_samples\<close>, or with one point.
\<close>

theorem ordering_is_permutation:
  "(optics_order d X eps min_samples = Inr (cd, ord, rd) \<longrightarrow>
      length ord = length X \<and> distinct ord \<and> set ord = {..<length X}) \<and>
   (min_samples < length X \<or> length X = 1 \<longrightarrow>
      (\<exists>cd' ord' rd'. optics_order d X eps min_samples = Inr (cd', ord', rd')))"
  using optics_order_perm [of d X eps min_samples cd ord rd]
    optics_order_total [of min_samples X d eps] by blast

theorem ordering_is_permutation_witness:
  "(1::nat) < length [0::real, 1, - 2] \<and>
   optics_order line_dist [0, 1, - 2] PInf 1 =
     Inr ([Some 1, Some 1, None], [0, 1, 2], [Fin 0, Fin 1, Fin 3]) \<and>
   length [0::nat, 1, 2] = length [0::real, 1, - 2] \<and> distinct [0::nat, 1, 2] \<and>
   set [0::nat, 1, 2] = {..<length [0::real, 1, - 2]}"
  using ordering_is_permutation [of line_dist "[0, 1, - 2]" PInf 1
      "[Some 1, Some 1, None]" "[0, 1, 2]" "[Fin 0, Fin 1, Fin 3]"] run_line3
  by simp

lemma optics_order_first:
  assumes "optics_order d X eps min_samples = Inr (cd, ord, rd)"
  shows "ord ! 0 = 0" and "rd ! 0 = Fin 0"
proof -
  from assms obtain st x where re: "reachable d X eps min_samples st" and s: "st_seeds st = [x]"
    and o: "ord = st_ordering st @ [x]" and r: "rd = (st_reach st)[0 := Fin 0]"
    by (rule optics_order_final)
  note inv = reachable_inv [OF re]
  show "ord ! 0 = 0"
  proof (cases "st_ordering st = []")
    case True
    with inv s o show ?thesis by (auto simp: loop_inv_def)
  next
    case False
    with inv o show ?thesis by (simp add: loop_inv_def nth_append)
  qed
  from inv s have "x < length (st_reach st)" by (auto simp: loop_inv_def)
  then have "0 < length (st_reach st)" by (cases "st_reach st") simp_all
  with r show "rd ! 0 = Fin 0" by simp
qed

text \<open>
  C7. Whenever the ordering engine returns, the reachability distance of the point in
  the first place of the ordering is 0; and it returns on every input with more points
  than \<open>min_samples\<close>, or with one point.
\<close>

theorem first_reachability_zero:
  "(optics_order d X eps min_samples = Inr (cd, ord, rd) \<longrightarrow> rd ! (ord ! 0) = Fin 0) \<and>
   (min_samples < length X \<or> length X = 1 \<longrightarrow>
      (\<exists>cd' ord' rd'. optics_order d X eps min_samples = Inr (cd', ord', rd')))"
  using optics_order_first [of d X eps min_samples cd ord rd]
    optics_order_total [of min_samples X d eps] by auto

theorem first_reachability_zero_witness:
  "(1::nat) < length [0::real, 1, - 2] \<and>
   optics_order line_dist [0, 1, - 2] PInf 1 =
     Inr ([Some 1, Some 1, None], [0, 1, 2], [Fin 0, Fin 1, Fin 3]) \<and>
   [Fin 0, Fin 1, Fin 3] ! ([0::nat, 1, 2] ! 0) = Fin 0"
  using first_reachability_zero [of line_dist "[0, 1, - 2]" PInf 1
      "[Some 1, Some 1, None]" "[0, 1, 2]" "[Fin 0, Fin 1, Fin 3]"] run_line3
  by simp

lemma loop_body_core:
  "loop_body d X eps min_samples st = Inr st' \<Longrightarrow>
     st_core st' = (st_core st)[st_i st := Some (sort (cdist_row d X (st_i st)) ! min_samples)]"
  by (auto simp: loop_body_def Let_def split: if_splits)

lemma loop_body_reach:
  "loop_body d X eps min_samples st = Inr st' \<Longrightarrow>
     st_reach st' =
       (if Fin (sort (cdist_row d X (st_i st)) ! min_samples) \<le> eps
        then fold (\<lambda>j r. r[j := Fin (max (sort (cdist_row d X (st_i st)) ! min_samples)
                                     (cdist_row d X (st_i st) ! j))])
               (filter (\<lambda>j. Fin (cdist_row d X (st_i st) ! j) \<le> eps) (st_seeds st'))
               (st_reach st)
        else st_reach st)"
  by (auto simp: loop_body_def Let_def split: if_splits)

lemma loop_body_next:
  "loop_body d X eps min_samples st = Inr st' \<Longrightarrow>
     st_i st' =
       (if Fin (sort (cdist_row d X (st_i st)) ! min_samples) \<le> eps
        then st_seeds st' ! argmin (map (\<lambda>j. st_reach st' ! j) (st_seeds st'))
        else st_seeds st' ! 0)"
  by (auto simp: loop_body_def Let_def split: if_splits)

lemma reachable_core:
  "reachable d X eps min_samples st \<Longrightarrow>
     (\<forall>j \<in> set (st_ordering st).
        st_core st ! j = Some (sort (cdist_row d X j) ! min_samples)) \<and>
     (\<forall>j \<in> set (st_seeds st). st_core st ! j = None)"
proof (induction rule: reachable.induct)
  case reach_init
  show ?case by (simp add: init_state_def)
next
  case (reach_step st st')
  note f = loop_body_fields [OF reach_step(3)]
  note c = loop_body_core [OF reach_step(3)]
  from reachable_inv [OF reach_step(1)] have inv: "loop_inv (length X) st" .
  from inv f(1) have i: "st_i st < length (st_core st)"
    by (auto simp: loop_inv_def)
  from inv have dist: "distinct (st_seeds st)"
    by (simp add: loop_inv_def strict_sorted_iff)
  show ?case
  proof (intro conjI ballI)
    fix j assume "j \<in> set (st_ordering st')"
    with f(3) have "j = st_i st \<or> j \<in> set (st_ordering st)" by auto
    then show "st_core st' ! j = Some (sort (cdist_row d X j) ! min_samples)"
      using reach_step.IH i c by (auto simp: nth_list_update)
  next
    fix j assume "j \<in> set (st_seeds st')"
    with f(2) dist have "j \<noteq> st_i st" "j \<in> set (st_seeds st)" by auto
    then show "st_core st' ! j = None"
      using reach_step.IH c by (simp add: nth_list_update)
  qed
qed

text \<open>
  C6. With \<open>min_samples\<close> below the number of points the ordering engine returns, and
  for every point of the ordering but the last the stored core distance is the entry at
  rank \<open>min_samples\<close> (from 0) of the sorted row of distances from that point to all
  points. The entry of the last point is never written.
\<close>

theorem core_distance_rank:
  assumes "min_samples < length X"
  shows "\<exists>cd ord rd. optics_order d X eps min_samples = Inr (cd, ord, rd) \<and>
           (\<forall>k < length X - 1.
              cd ! (ord ! k) = Some (sort (cdist_row d X (ord ! k)) ! min_samples)) \<and>
           cd ! (ord ! (length X - 1)) = None"
proof -
  from optics_order_total [of min_samples X d eps] assms
  obtain cd ord rd where r: "optics_order d X eps min_samples = Inr (cd, ord, rd)" by blast
  then obtain st x where re: "reachable d X eps min_samples st" and s: "st_seeds st = [x]"
    and c: "cd = st_core st" and o: "ord = st_ordering st @ [x]"
    by (rule optics_order_final)
  from optics_order_perm(1) [OF r] o have len: "length (st_ordering st) = length X - 1"
    by simp
  have "cd ! (ord ! k) = Some (sort (cdist_row d X (ord ! k)) ! min_samples)"
    if "k < length X - 1" for k
  proof -
    from that len o have "ord ! k = st_ordering st ! k" "st_ordering st ! k \<in> set (st_ordering st)"
      by (simp_all add: nth_append)
    with reachable_core [OF re] c show ?thesis by simp
  qed
  moreover from len o have "ord ! (length X - 1) = x" by (simp add: nth_append)
  with reachable_core [OF re] c s have "cd ! (ord ! (length X - 1)) = None" by simp
  ultimately show ?thesis using r by blast
qed

lemma run_line5:
  "optics_order line_dist [0, 2, 3, 1, 1] PInf 3 =
     Inr ([Some 2, Some 1, Some 2, Some 1, None], [0, 1, 2, 3, 4],
          [Fin 0, Fin 2, Fin 1, Fin 2, Fin 1])"
  by code_simp

theorem core_distance_rank_witness:
  "(1::nat) < length [0::real, 1, - 2] \<and>
   optics_order line_dist [0, 1, - 2] PInf 1 =
     Inr ([Some 1, Some 1, None], [0, 1, 2], [Fin 0, Fin 1, Fin 3]) \<and>
   [Some 1, Some 1, None] ! ([0::nat, 1, 2] ! 1) =
     Some (sort (cdist_row line_dist [0, 1, - 2] ([0::nat, 1, 2] ! 1)) ! 1)"
proof -
  have h: "(1::nat) < length [0::real, 1, - 2]" by simp
  from core_distance_rank [OF h, of line_dist PInf]
  obtain cd ord rd where a: "optics_order line_dist [0, 1, - 2] PInf 1 = Inr (cd, ord, rd)"
    and b: "\<forall>k < length [0::real, 1, - 2] - 1.
      cd ! (ord ! k) = Some (sort (cdist_row line_dist [0, 1, - 2] (ord ! k)) ! 1)"
    by blast
  from a run_line3 have e: "cd = [Some 1, Some 1, None]" "ord = [0, 1, 2]" by simp_all
  have "(1::nat) < length [0::real, 1, - 2] - 1" by simp
  with b have "cd ! (ord ! 1) = Some (sort (cdist_row line_dist [0, 1, - 2] (ord ! 1)) ! 1)"
    by blast
  then have "[Some 1, Some 1, None] ! ([0::nat, 1, 2] ! 1) =
      Some (sort (cdist_row line_dist [0, 1, - 2] ([0::nat, 1, 2] ! 1)) ! 1)"
    unfolding e .
  with h run_line3 show ?thesis by blast
qed

lemma argmin_le: "j < length xs \<Longrightarrow> xs ! argmin xs \<le> xs ! j"
proof (induction xs arbitrary: j rule: argmin.induct)
  case 1 then show ?case by simp
next
  case (2 x) then show ?case by simp
next
  case (3 x y ys)
  show ?case
  proof (cases j)
    case 0
    then show ?thesis by (auto simp: Let_def)
  next
    case (Suc j')
    with 3 have "(y # ys) ! argmin (y # ys) \<le> (y # ys) ! j'" by simp
    then show ?thesis using Suc by (auto simp: Let_def)
  qed
qed

lemma argmin_first: "j < argmin xs \<Longrightarrow> xs ! argmin xs < xs ! j"
proof (induction xs arbitrary: j rule: argmin.induct)
  case 1 then show ?case by simp
next
  case (2 x) then show ?case by simp
next
  case (3 x y ys)
  show ?case
  proof (cases j)
    case 0
    with 3 show ?thesis by (auto simp: Let_def split: if_splits)
  next
    case (Suc j')
    with 3 show ?thesis by (auto simp: Let_def split: if_splits)
  qed
qed

lemma sorted_nth0_Min:
  "sorted_wrt (<) xs \<Longrightarrow> xs \<noteq> [] \<Longrightarrow> xs ! 0 = Min (set (xs::nat list))"
  by (cases xs) (auto intro!: Min_eqI [symmetric] dest: less_imp_le)

lemma argmin_seed:
  fixes f :: "nat \<Rightarrow> 'a::linorder"
  assumes s: "sorted_wrt (<) (seeds::nat list)" and j: "j \<in> set seeds"
    and i: "i = seeds ! argmin (map f seeds)"
  shows "f i \<le> f j" and "f j = f i \<Longrightarrow> i \<le> j"
proof -
  from j obtain m where m: "m < length seeds" "seeds ! m = j"
    by (auto simp: in_set_conv_nth)
  let ?a = "argmin (map f seeds)"
  from m have ne: "map f seeds \<noteq> []" by auto
  from argmin_less [OF ne] have a: "?a < length seeds" by simp
  from argmin_le [of m "map f seeds"] m a show "f i \<le> f j"
    by (simp add: i)
  assume eq: "f j = f i"
  have "\<not> m < ?a"
  proof
    assume "m < ?a"
    from argmin_first [OF this] m a eq show False by (simp add: i)
  qed
  then have "?a \<le> m" by simp
  with s m a show "i \<le> j"
    unfolding i using sorted_wrt_nth_less [of "(<)" seeds ?a m]
    by (cases "?a = m") auto
qed

text \<open>
  C9. In every state of the ordering loop the seeds are in ascending order of point
  index. After an iteration, the next point is a seed; when the processed point is not a
  core point it is the smallest seed left, and when it is a core point it has the least
  reachability among the seeds left and the least index among the seeds with that
  reachability.
\<close>

theorem seeds_ascending_next_lowest:
  assumes "reachable d X eps min_samples st"
  shows "sorted_wrt (<) (st_seeds st) \<and>
    (\<forall>st'. 1 < length (st_seeds st) \<and> loop_body d X eps min_samples st = Inr st' \<longrightarrow>
       st_i st' \<in> set (st_seeds st') \<and>
       (if Fin (sort (cdist_row d X (st_i st)) ! min_samples) \<le> eps
        then \<forall>j \<in> set (st_seeds st').
               st_reach st' ! st_i st' \<le> st_reach st' ! j \<and>
               (st_reach st' ! j = st_reach st' ! st_i st' \<longrightarrow> st_i st' \<le> j)
        else st_i st' = Min (set (st_seeds st'))))"
proof (intro conjI allI impI)
  from reachable_inv [OF assms] show "sorted_wrt (<) (st_seeds st)"
    by (simp add: loop_inv_def)
next
  fix st'
  assume a: "1 < length (st_seeds st) \<and> loop_body d X eps min_samples st = Inr st'"
  then have body: "loop_body d X eps min_samples st = Inr st'" and l: "1 < length (st_seeds st)"
    by simp_all
  from assms l body have re: "reachable d X eps min_samples st'" by (rule reach_step)
  from reachable_inv [OF re] have s: "sorted_wrt (<) (st_seeds st')"
    by (simp add: loop_inv_def)
  note f = loop_body_fields [OF body]
  from f(1,2) have "length (st_seeds st') = length (st_seeds st) - 1"
    by (simp add: length_remove1)
  with l have ne: "st_seeds st' \<noteq> []" by auto
  with f(8) show "st_i st' \<in> set (st_seeds st')" by simp
  show "if Fin (sort (cdist_row d X (st_i st)) ! min_samples) \<le> eps
        then \<forall>j \<in> set (st_seeds st').
               st_reach st' ! st_i st' \<le> st_reach st' ! j \<and>
               (st_reach st' ! j = st_reach st' ! st_i st' \<longrightarrow> st_i st' \<le> j)
        else st_i st' = Min (set (st_seeds st'))"
  proof (cases "Fin (sort (cdist_row d X (st_i st)) ! min_samples) \<le> eps")
    case True
    with loop_body_next [OF body]
    have i: "st_i st' = st_seeds st' ! argmin (map (\<lambda>j. st_reach st' ! j) (st_seeds st'))"
      by simp
    from True argmin_seed [OF s _ i] show ?thesis
      by auto
  next
    case False
    with loop_body_next [OF body] have "st_i st' = st_seeds st' ! 0" by simp
    with False sorted_nth0_Min [OF s ne] show ?thesis by simp
  qed
qed

lemma step1_line3:
  "loop_body line_dist [0, 1, - 2] PInf 1 (init_state 3) =
     Inr \<lparr>st_seeds = [1, 2], st_i = 1, st_ordering = [0],
          st_core = [Some 1, None, None], st_reach = [PInf, Fin 1, Fin 2]\<rparr>"
  by code_simp

lemma step2_line3:
  "loop_body line_dist [0, 1, - 2] PInf 1
     \<lparr>st_seeds = [1, 2], st_i = 1, st_ordering = [0],
      st_core = [Some 1, None, None], st_reach = [PInf, Fin 1, Fin 2]\<rparr> =
     Inr \<lparr>st_seeds = [2], st_i = 2, st_ordering = [0, 1],
          st_core = [Some 1, Some 1, None], st_reach = [PInf, Fin 1, Fin 3]\<rparr>"
  by code_simp

lemma step1_line3_noncore:
  "loop_body line_dist [0, 1, - 2] (Fin (1/2)) 1 (init_state 3) =
     Inr \<lparr>st_seeds = [1, 2], st_i = 1, st_ordering = [0],
          st_core = [Some 1, None, None], st_reach = [PInf, PInf, PInf]\<rparr>"
  by code_simp

lemma reachable_init3: "reachable d [a, b, c] eps min_samples (init_state 3)"
  using reach_init [of d "[a, b, c]" eps min_samples] by (simp add: numeral_3_eq_3)

lemma reachable_line3_1:
  "reachable line_dist [0, 1, - 2] PInf 1
     \<lparr>st_seeds = [1, 2], st_i = 1, st_ordering = [0],
      st_core = [Some 1, None, None], st_reach = [PInf, Fin 1, Fin 2]\<rparr>"
  by (rule reach_step [OF reachable_init3 _ step1_line3]) (simp add: init_state_def)

theorem seeds_ascending_next_lowest_witness:
  "reachable line_dist [0, 1, - 2] PInf 1 (init_state 3) \<and>
   sorted_wrt (<) (st_seeds (init_state 3)) \<and>
   loop_body line_dist [0, 1, - 2] PInf 1 (init_state 3) =
     Inr \<lparr>st_seeds = [1, 2], st_i = 1, st_ordering = [0],
          st_core = [Some 1, None, None], st_reach = [PInf, Fin 1, Fin 2]\<rparr> \<and>
   [PInf, Fin 1, Fin 2] ! 1 \<le> [PInf, Fin 1, Fin 2] ! (2::nat) \<and>
   reachable line_dist [0, 1, - 2] (Fin (1/2)) 1 (init_state 3) \<and>
   loop_body line_dist [0, 1, - 2] (Fin (1/2)) 1 (init_state 3) =
     Inr \<lparr>st_seeds = [1, 2], st_i = 1, st_ordering = [0],
          st_core = [Some 1, None, None], st_reach = [PInf, PInf, PInf]\<rparr> \<and>
   (1::nat) = Min (set [1, 2])"
proof -
  have l: "1 < length (st_seeds (init_state 3))" by (simp add: init_state_def)
  have c: "Fin (sort (cdist_row line_dist [0, 1, - 2] (st_i (init_state 3))) ! 1) \<le> PInf"
    by (cases "Fin (sort (cdist_row line_dist [0, 1, - 2] (st_i (init_state 3))) ! 1)") simp_all
  have n: "\<not> Fin (sort (cdist_row line_dist [0, 1, - 2] (st_i (init_state 3))) ! 1) \<le> Fin (1/2)"
    by code_simp
  from seeds_ascending_next_lowest [OF reachable_init3, of line_dist 0 1 "- 2" PInf 1]
    l step1_line3 c
  have a: "sorted_wrt (<) (st_seeds (init_state 3))"
    and b: "[PInf, Fin 1, Fin 2] ! 1 \<le> [PInf, Fin 1, Fin 2] ! (2::nat)"
    by auto
  from seeds_ascending_next_lowest [OF reachable_init3, of line_dist 0 1 "- 2" "Fin (1/2)" 1]
    l step1_line3_noncore n
  have e: "(1::nat) = Min (set [1, 2])"
    by auto
  show ?thesis
    using a b e step1_line3 step1_line3_noncore
      reachable_init3 [of line_dist 0 1 "- 2" PInf 1]
      reachable_init3 [of line_dist 0 1 "- 2" "Fin (1/2)" 1]
    by (intro conjI) assumption+
qed

text \<open>
  C1, as stated, fails. Points 0, 1 and -2 on a line, \<open>min_samples = 1\<close>, no bound on
  the radius: after point 0 the reachability of point 2 is 2; processing the core point 1
  replaces it by 3, which is larger.
\<close>

theorem reachability_can_increase:
  "reachable line_dist [0, 1, - 2] PInf 1
     \<lparr>st_seeds = [1, 2], st_i = 1, st_ordering = [0],
      st_core = [Some 1, None, None], st_reach = [PInf, Fin 1, Fin 2]\<rparr> \<and>
   loop_body line_dist [0, 1, - 2] PInf 1
     \<lparr>st_seeds = [1, 2], st_i = 1, st_ordering = [0],
      st_core = [Some 1, None, None], st_reach = [PInf, Fin 1, Fin 2]\<rparr> =
     Inr \<lparr>st_seeds = [2], st_i = 2, st_ordering = [0, 1],
          st_core = [Some 1, Some 1, None], st_reach = [PInf, Fin 1, Fin 3]\<rparr> \<and>
   \<not> [PInf, Fin 1, Fin 3] ! 2 \<le> [PInf, Fin 1, Fin 2] ! (2::nat)"
  using reachable_line3_1 step2_line3 by simp

text \<open>
  C1, amended. An iteration that processes a core point \<open>i\<close> writes
  \<open>max (core distance of i) (distance i j)\<close> into the reachability of every remaining
  seed \<open>j\<close> within \<open>eps\<close> of \<open>i\<close>, whatever the stored value is; every other entry,
  and every entry when \<open>i\<close> is not a core point, is left as it is.
\<close>

theorem reachability_overwritten:
  assumes "reachable d X eps min_samples st" and "1 < length (st_seeds st)"
    and "loop_body d X eps min_samples st = Inr st'" and "j < length X"
  shows "st_reach st' ! j =
    (if Fin (sort (cdist_row d X (st_i st)) ! min_samples) \<le> eps \<and>
        j \<in> set (st_seeds st') \<and> Fin (cdist_row d X (st_i st) ! j) \<le> eps
     then Fin (max (sort (cdist_row d X (st_i st)) ! min_samples) (cdist_row d X (st_i st) ! j))
     else st_reach st ! j)"
proof -
  from reachable_inv [OF assms(1)] assms(4) have "j < length (st_reach st)"
    by (simp add: loop_inv_def)
  with loop_body_reach [OF assms(3)] show ?thesis
    by (simp add: nth_fold_update)
qed

theorem reachability_overwritten_witness:
  "reachable line_dist [0, 1, - 2] PInf 1
     \<lparr>st_seeds = [1, 2], st_i = 1, st_ordering = [0],
      st_core = [Some 1, None, None], st_reach = [PInf, Fin 1, Fin 2]\<rparr> \<and>
   loop_body line_dist [0, 1, - 2] PInf 1
     \<lparr>st_seeds = [1, 2], st_i = 1, st_ordering = [0],
      st_core = [Some 1, None, None], st_reach = [PInf, Fin 1, Fin 2]\<rparr> =
     Inr \<lparr>st_seeds = [2], st_i = 2, st_ordering = [0, 1],
          st_core = [Some 1, Some 1, None], st_reach = [PInf, Fin 1, Fin 3]\<rparr> \<and>
   [PInf, Fin 1, Fin 3] ! 2 =
     Fin (max (sort (cdist_row line_dist [0, 1, - 2] 1) ! 1)
              (cdist_row line_dist [0, 1, - 2] 1 ! 2))"
proof -
  have c: "Fin (sort (cdist_row line_dist [0, 1, - 2] 1) ! 1) \<le> PInf"
    by (cases "Fin (sort (cdist_row line_dist [0, 1, - 2] 1) ! 1)") simp_all
  have e: "Fin (cdist_row line_dist [0, 1, - 2] 1 ! 2) \<le> PInf"
    by (cases "Fin (cdist_row line_dist [0, 1, - 2] 1 ! 2)") simp_all
  from reachability_overwritten [OF reachable_line3_1 _ step2_line3, of 2] c e
  have "[PInf, Fin 1, Fin 3] ! 2 =
     Fin (max (sort (cdist_row line_dist [0, 1, - 2] 1) ! 1)
              (cdist_row line_dist [0, 1, - 2] 1 ! 2))"
    by simp
  with reachable_line3_1 step2_line3 show ?thesis by blast
qed

lemma extract_line5:
  "hierarchical_extraction [0, 1, 2, 3, 4] [Fin 0, Fin 2, Fin 1, Fin 2, Fin 1] 3 0.75 0.4 0.1 =
     Inr [0, - 1, - 1, 1, 1]"
  by code_simp

lemma leaves_line5:
  "extraction_leaves [0, 1, 2, 3, 4] [Fin 0, Fin 2, Fin 1, Fin 2, Fin 1] 3 0.75 0.4 0.1 =
     Inr [(0, 1), (3, 5)]"
  by code_simp

lemma optics_line5:
  "optics line_dist [0, 2, 3, 1, 1] PInf 3 (Str ''Hierarchical'') [] =
     Inr ([Some 2, Some 1, Some 2, Some 1, None], [0, 1, 2, 3, 4],
          [Fin 0, Fin 2, Fin 1, Fin 2, Fin 1], [0, - 1, - 1, 1, 1])"
  by code_simp

section \<open>Properties of the extraction and of the entry point\<close>

text \<open>
  C2, the positions of the last \<open>min_cluster_size\<close> places. The tail test of line 66
  compares the arg-max inside the window with \<open>i\<close>, although the window starts
  \<open>min_cluster_size\<close> places before the position it decides on. With
  \<open>min_cluster_size = 1\<close> the window of position 3 is \<open>R[2:4]\<close>. On the plot 0, 1, 2, 9
  position 3 is the arg-max of its window and is not a candidate (no position is, and the
  entry point raises on the points 0, 1, 3, 12 that give this plot); on the plot 0, 5, 3, 1
  position 3 is a candidate and the arg-max of its window is position 2.
\<close>

theorem tail_rule_compares_wrong_offset:
  "local_maxima [Fin 0, Fin 1, Fin 2, Fin 9] 1 = Inr [] \<and>
   np_argmax (py_slice [Fin 0, Fin 1, Fin 2, Fin 9] 2 4) = Inr 1 \<and>
   local_maxima [Fin 0, Fin 5, Fin 3, Fin 1] 1 = Inr [3, 1] \<and>
   np_argmax (py_slice [Fin 0, Fin 5, Fin 3, Fin 1] 2 4) = Inr 0 \<and>
   optics line_dist [0, 1, 3, 12] PInf 1 (Str ''hierarchical'') [] = Inl IndexError"
  by code_simp

text \<open>
  C3, as stated, fails: with the unknown name \<^verbatim>\<open>'unknown'\<close> the error depends on the
  clustering input. On three points with \<open>min_samples = 5\<close> the ordering loop raises
  \<^verbatim>\<open>IndexError\<close> before the name is looked at; with \<open>min_samples = 1\<close> the loop
  completes and the name is rejected.
\<close>

theorem unknown_extraction_after_ordering:
  "optics line_dist [0, 1, - 2] PInf 5 (Str ''unknown'') [] = Inl IndexError \<and>
   optics line_dist [0, 1, - 2] PInf 1 (Str ''unknown'') [] =
     Inl (ValueError ''Unknown Extraction Method: unknown'')"
  by code_simp

lemma lookup_extraction:
  "map_of EXTRACTION_FUNCTIONS estr =
     (if estr = ''hierarchical'' then Some call_hierarchical else None)"
  by (simp add: EXTRACTION_FUNCTIONS_def)

text \<open>
  C3, amended. With an extraction that is not a string, or a string that is not the name
  of a registered strategy in any letter case, the entry point never returns result
  arrays. If the ordering loop raises, that exception is the outcome; if it completes,
  the outcome is \<^verbatim>\<open>ValueError\<close> for a string and \<^verbatim>\<open>TypeError\<close> for any other value.
\<close>

theorem bad_extraction_never_returns:
  assumes "\<forall>name. extraction = Str name \<longrightarrow> lower name \<noteq> ''hierarchical''"
  shows "(\<forall>r. optics d X eps min_samples extraction ext_kwargs \<noteq> Inr r) \<and>
    (\<forall>e. optics_order d X eps min_samples = Inl e \<longrightarrow>
          optics d X eps min_samples extraction ext_kwargs = Inl e) \<and>
    (\<forall>r. optics_order d X eps min_samples = Inr r \<longrightarrow>
          optics d X eps min_samples extraction ext_kwargs =
            Inl (case extraction of
                   Str name \<Rightarrow> ValueError (''Unknown Extraction Method: '' @ lower name)
                 | _ \<Rightarrow> TypeError ''Extraction Method must be a string.''))"
  using assms
  by (cases extraction)
    (auto simp: optics_def lookup_extraction Let_def split: sum.splits prod.splits)

theorem bad_extraction_never_returns_witness:
  "lower ''unknown'' \<noteq> ''hierarchical'' \<and>
   optics_order line_dist [0, 1, - 2] PInf 1 =
     Inr ([Some 1, Some 1, None], [0, 1, 2], [Fin 0, Fin 1, Fin 3]) \<and>
   optics line_dist [0, 1, - 2] PInf 1 (Str ''unknown'') [] =
     Inl (ValueError (''Unknown Extraction Method: '' @ lower ''unknown'')) \<and>
   optics line_dist [0, 1, - 2] PInf 1 NoneVal [] =
     Inl (TypeError ''Extraction Method must be a string.'')"
proof -
  have n: "lower ''unknown'' \<noteq> ''hierarchical''" by code_simp
  then have h: "\<forall>name. Str ''unknown'' = Str name \<longrightarrow> lower name \<noteq> ''hierarchical''"
    by simp
  have h': "\<forall>name. NoneVal = Str name \<longrightarrow> lower name \<noteq> ''hierarchical''"
    by simp
  from bad_extraction_never_returns [OF h, of line_dist "[0, 1, - 2]" PInf 1 "[]"] run_line3
  have a: "optics line_dist [0, 1, - 2] PInf 1 (Str ''unknown'') [] =
     Inl (ValueError (''Unknown Extraction Method: '' @ lower ''unknown''))"
    by simp
  from bad_extraction_never_returns [OF h', of line_dist "[0, 1, - 2]" PInf 1 "[]"] run_line3
  have b: "optics line_dist [0, 1, - 2] PInf 1 NoneVal [] =
     Inl (TypeError ''Extraction Method must be a string.'')"
    by simp
  from n run_line3 a b show ?thesis by (intro conjI)
qed



lemma check_kwargs_None:
  "check_kwargs kw = None \<Longrightarrow> (k, v) \<in> set kw \<Longrightarrow>
     k \<noteq> ''min_cluster_size''"
proof (induction kw)
  case Nil
  then show ?case by simp
next
  case (Cons a kw)
  obtain k' v' where a: "a = (k', v')" by (cases a)
  show ?case
  proof (cases "(k, v) = a")
    case True
    with Cons.prems(1) a show ?thesis
      by (simp split: if_splits)
  next
    case False
    from Cons.prems(1) a have "check_kwargs kw = None"
      by (simp split: if_splits)
    moreover from False Cons.prems(2) have "(k, v) \<in> set kw" by simp
    ultimately show ?thesis by (rule Cons.IH)
  qed
qed

text \<open>
  C10. Whenever the entry point returns, the labels are those of the hierarchical
  extraction applied to the ordering and the reachability distances of the ordering loop,
  with \<open>min_samples\<close> as the minimum cluster size and the ratios of \<open>ext_kwargs\<close> or
  their defaults; and \<open>ext_kwargs\<close> has no entry \<^verbatim>\<open>min_cluster_size\<close>, since such an
  entry makes the call raise.
\<close>

theorem labels_use_min_samples:
  assumes "optics d X eps min_samples extraction ext_kwargs = Inr (cd, ord, rd, labels)"
  shows "optics_order d X eps min_samples = Inr (cd, ord, rd) \<and>
    hierarchical_extraction ord rd min_samples
      (kwarg ext_kwargs ''significant_ratio'' 0.75)
      (kwarg ext_kwargs ''similarity_ratio'' 0.4)
      (kwarg ext_kwargs ''min_reach_ratio'' 0.1) = Inr labels \<and>
    ''min_cluster_size'' \<notin> fst ` set ext_kwargs"
proof -
  from assms obtain name where o: "optics_order d X eps min_samples = Inr (cd, ord, rd)"
    and c: "call_hierarchical ord rd min_samples ext_kwargs = Inr labels"
    by (cases extraction)
      (auto simp: optics_def lookup_extraction Let_def split: sum.splits prod.splits if_splits)
  from c have k: "check_kwargs ext_kwargs = None"
    and h: "hierarchical_extraction ord rd min_samples
      (kwarg ext_kwargs ''significant_ratio'' 0.75)
      (kwarg ext_kwargs ''similarity_ratio'' 0.4)
      (kwarg ext_kwargs ''min_reach_ratio'' 0.1) = Inr labels"
    by (auto simp: call_hierarchical_def split: option.splits)
  have "''min_cluster_size'' \<notin> fst ` set ext_kwargs"
  proof
    assume "''min_cluster_size'' \<in> fst ` set ext_kwargs"
    then obtain v where "(''min_cluster_size'', v) \<in> set ext_kwargs" by force
    from check_kwargs_None [OF k this] show False by simp
  qed
  with o h show ?thesis by simp
qed


theorem labels_use_min_samples_witness:
  "optics line_dist [0, 2, 3, 1, 1] PInf 3 (Str ''Hierarchical'') [] =
     Inr ([Some 2, Some 1, Some 2, Some 1, None], [0, 1, 2, 3, 4],
          [Fin 0, Fin 2, Fin 1, Fin 2, Fin 1], [0, - 1, - 1, 1, 1]) \<and>
   hierarchical_extraction [0, 1, 2, 3, 4] [Fin 0, Fin 2, Fin 1, Fin 2, Fin 1] 3
      (kwarg [] ''significant_ratio'' 0.75) (kwarg [] ''similarity_ratio'' 0.4)
      (kwarg [] ''min_reach_ratio'' 0.1) = Inr [0, - 1, - 1, 1, 1]"
  using labels_use_min_samples [OF optics_line5] optics_line5 by (intro conjI) simp_all

lemma cluster_tree_unfold:
  "L \<noteq> [] \<Longrightarrow>
   cluster_tree R m sg sm node parent L =
     (if significant R sg node (last L) then
        if \<not> keep_left m node (last L) \<and> \<not> keep_right R m node (last L) then [node]
        else
          (if keep_left m node (last L)
           then cluster_tree R m sg sm (fst node, last L) (next_parent R sm parent (last L))
                  (filter (\<lambda>x. x < last L) (butlast L))
           else []) @
          (if keep_right R m node (last L)
           then cluster_tree R m sg sm (last L, snd node) (next_parent R sm parent (last L))
                  (filter (\<lambda>x. last L < x) (butlast L))
           else [])
      else cluster_tree R m sg sm node parent (butlast L))"
  by (subst cluster_tree.simps)
    (simp add: Let_def significant_def keep_left_def keep_right_def next_parent_def
      split del: if_split cong: if_cong)

lemma cluster_tree_Nil: "cluster_tree R m sg sm node parent [] = [node]"
  by (subst cluster_tree.simps) simp

lemma ascending_ranges_bounds: "ascending_ranges lo hi ls \<Longrightarrow> lo \<le> hi"
  by (induction ls arbitrary: lo) force+

lemma ascending_ranges_widen:
  "ascending_ranges lo hi ls \<Longrightarrow> lo' \<le> lo \<Longrightarrow> hi \<le> hi' \<Longrightarrow> ascending_ranges lo' hi' ls"
  by (induction ls arbitrary: lo lo') auto

lemma ascending_ranges_append:
  "ascending_ranges lo mid xs \<Longrightarrow> ascending_ranges mid hi ys \<Longrightarrow>
     ascending_ranges lo hi (xs @ ys)"
  by (induction xs arbitrary: lo) (auto intro: ascending_ranges_widen)

lemma cluster_tree_ascending:
  "fst node \<le> snd node \<Longrightarrow> \<forall>x \<in> set L. fst node \<le> x \<and> x < snd node \<Longrightarrow>
     ascending_ranges (fst node) (snd node) (cluster_tree R m sg sm node parent L)"
proof (induction "length L" arbitrary: node parent L rule: less_induct)
  case less
  show ?case
  proof (cases "L = []")
    case True
    with less.prems show ?thesis by (simp add: cluster_tree_Nil)
  next
    case False
    let ?s = "last L"
    let ?p = "next_parent R sm parent ?s"
    let ?Ll = "filter (\<lambda>x. x < ?s) (butlast L)"
    let ?Lr = "filter (\<lambda>x. ?s < x) (butlast L)"
    from False have sin: "?s \<in> set L" by simp
    with less.prems have s: "fst node \<le> ?s" "?s < snd node" by auto
    from False have lb: "length (butlast L) < length L" by simp
    have sub: "x \<in> set L" if "x \<in> set (butlast L)" for x
      using that by (rule in_set_butlastD)
    from lb length_filter_le [of "\<lambda>x. x < ?s" "butlast L"]
    have "length ?Ll < length L" by linarith
    moreover have "\<forall>x \<in> set ?Ll. fst (fst node, ?s) \<le> x \<and> x < snd (fst node, ?s)"
      using less.prems(2) sub by auto
    ultimately have left: "ascending_ranges (fst node) ?s
        (cluster_tree R m sg sm (fst node, ?s) ?p ?Ll)"
      using less.hyps [of ?Ll "(fst node, ?s)" ?p] s by simp
    from lb length_filter_le [of "\<lambda>x. ?s < x" "butlast L"]
    have "length ?Lr < length L" by linarith
    moreover have "\<forall>x \<in> set ?Lr. fst (?s, snd node) \<le> x \<and> x < snd (?s, snd node)"
      using less.prems(2) sub by auto
    ultimately have right: "ascending_ranges ?s (snd node)
        (cluster_tree R m sg sm (?s, snd node) ?p ?Lr)"
      using less.hyps [of ?Lr "(?s, snd node)" ?p] s by simp
    have "\<forall>x \<in> set (butlast L). fst node \<le> x \<and> x < snd node"
      using less.prems(2) sub by auto
    with lb have retry: "ascending_ranges (fst node) (snd node)
        (cluster_tree R m sg sm node parent (butlast L))"
      using less.hyps [of "butlast L" node parent] less.prems(1) by simp
    from left s have left': "ascending_ranges (fst node) (snd node)
        (cluster_tree R m sg sm (fst node, ?s) ?p ?Ll)"
      by (auto intro: ascending_ranges_widen)
    from right s have right': "ascending_ranges (fst node) (snd node)
        (cluster_tree R m sg sm (?s, snd node) ?p ?Lr)"
      by (auto intro: ascending_ranges_widen)
    from ascending_ranges_append [OF left right]
    have both: "ascending_ranges (fst node) (snd node)
        (cluster_tree R m sg sm (fst node, ?s) ?p ?Ll @
         cluster_tree R m sg sm (?s, snd node) ?p ?Lr)" .
    have leaf: "ascending_ranges (fst node) (snd node) [node]"
      using less.prems(1) by simp
    show ?thesis
      unfolding cluster_tree_unfold [OF False]
      using left' right' both retry leaf by simp
  qed
qed

lemma cluster_tree_nonempty:
  "fst node < snd node \<Longrightarrow> \<forall>x \<in> set L. fst node < x \<and> x < snd node \<Longrightarrow>
     \<forall>l \<in> set (cluster_tree R m sg sm node parent L). fst l < snd l"
proof (induction "length L" arbitrary: node parent L rule: less_induct)
  case less
  show ?case
  proof (cases "L = []")
    case True
    with less.prems show ?thesis by (simp add: cluster_tree_Nil)
  next
    case False
    let ?s = "last L"
    let ?p = "next_parent R sm parent ?s"
    let ?Ll = "filter (\<lambda>x. x < ?s) (butlast L)"
    let ?Lr = "filter (\<lambda>x. ?s < x) (butlast L)"
    from False have sin: "?s \<in> set L" by simp
    with less.prems have s: "fst node < ?s" "?s < snd node" by auto
    from False have lb: "length (butlast L) < length L" by simp
    have sub: "x \<in> set L" if "x \<in> set (butlast L)" for x
      using that by (rule in_set_butlastD)
    from lb length_filter_le [of "\<lambda>x. x < ?s" "butlast L"]
    have "length ?Ll < length L" by linarith
    moreover have "\<forall>x \<in> set ?Ll. fst (fst node, ?s) < x \<and> x < snd (fst node, ?s)"
      using less.prems(2) sub by auto
    ultimately have left: "\<forall>l \<in> set (cluster_tree R m sg sm (fst node, ?s) ?p ?Ll). fst l < snd l"
      using less.hyps [of ?Ll "(fst node, ?s)" ?p] s by simp
    from lb length_filter_le [of "\<lambda>x. ?s < x" "butlast L"]
    have "length ?Lr < length L" by linarith
    moreover have "\<forall>x \<in> set ?Lr. fst (?s, snd node) < x \<and> x < snd (?s, snd node)"
      using less.prems(2) sub by auto
    ultimately have right: "\<forall>l \<in> set (cluster_tree R m sg sm (?s, snd node) ?p ?Lr). fst l < snd l"
      using less.hyps [of ?Lr "(?s, snd node)" ?p] s by simp
    have "\<forall>x \<in> set (butlast L). fst node < x \<and> x < snd node"
      using less.prems(2) sub by auto
    with lb have retry: "\<forall>l \<in> set (cluster_tree R m sg sm node parent (butlast L)). fst l < snd l"
      using less.hyps [of "butlast L" node parent] less.prems(1) by simp
    show ?thesis
      unfolding cluster_tree_unfold [OF False]
      using left right retry less.prems(1) by auto
  qed
qed

lemma first_empty_only_append:
  "first_empty_only lo xs \<Longrightarrow> \<forall>l \<in> set ys. fst l < snd l \<Longrightarrow> first_empty_only lo (xs @ ys)"
  by (auto simp: first_empty_only_def)

lemma first_empty_only_nonempty:
  "\<forall>l \<in> set ys. fst l < snd l \<Longrightarrow> first_empty_only lo ys"
  by (simp add: first_empty_only_def)

lemma cluster_tree_first_empty_only:
  "fst node < snd node \<Longrightarrow> \<forall>x \<in> set L. fst node \<le> x \<and> x < snd node \<Longrightarrow>
     first_empty_only (fst node) (cluster_tree R m sg sm node parent L)"
proof (induction "length L" arbitrary: node parent L rule: less_induct)
  case less
  show ?case
  proof (cases "L = []")
    case True
    with less.prems show ?thesis by (simp add: cluster_tree_Nil first_empty_only_def)
  next
    case False
    let ?s = "last L"
    let ?p = "next_parent R sm parent ?s"
    let ?Ll = "filter (\<lambda>x. x < ?s) (butlast L)"
    let ?Lr = "filter (\<lambda>x. ?s < x) (butlast L)"
    from False have sin: "?s \<in> set L" by simp
    with less.prems have s: "fst node \<le> ?s" "?s < snd node" by auto
    from False have lb: "length (butlast L) < length L" by simp
    have sub: "x \<in> set L" if "x \<in> set (butlast L)" for x
      using that by (rule in_set_butlastD)
    have "\<forall>x \<in> set ?Lr. fst (?s, snd node) < x \<and> x < snd (?s, snd node)"
      using less.prems(2) sub by auto
    with s have right: "\<forall>l \<in> set (cluster_tree R m sg sm (?s, snd node) ?p ?Lr). fst l < snd l"
      using cluster_tree_nonempty [of "(?s, snd node)" ?Lr R m sg sm ?p] by simp
    have left: "first_empty_only (fst node) (cluster_tree R m sg sm (fst node, ?s) ?p ?Ll)"
    proof (cases "?s = fst node")
      case True
      have "\<not> x < ?s" if "x \<in> set (butlast L)" for x
        using less.prems(2) sub [OF that] True by force
      then have "?Ll = []"
        by (simp add: filter_empty_conv)
      with True show ?thesis
        by (simp add: cluster_tree_Nil first_empty_only_def)
    next
      case False
      with s have lt: "fst node < ?s" by simp
      from lb length_filter_le [of "\<lambda>x. x < ?s" "butlast L"]
      have "length ?Ll < length L" by linarith
      moreover have "\<forall>x \<in> set ?Ll. fst (fst node, ?s) \<le> x \<and> x < snd (fst node, ?s)"
        using less.prems(2) sub by auto
      ultimately show ?thesis
        using less.hyps [of ?Ll "(fst node, ?s)" ?p] lt by simp
    qed
    have "\<forall>x \<in> set (butlast L). fst node \<le> x \<and> x < snd node"
      using less.prems(2) sub by auto
    with lb have retry: "first_empty_only (fst node) (cluster_tree R m sg sm node parent (butlast L))"
      using less.hyps [of "butlast L" node parent] less.prems(1) by simp
    have leaf: "first_empty_only (fst node) [node]"
      using less.prems(1) by (simp add: first_empty_only_def)
    show ?thesis
      unfolding cluster_tree_unfold [OF False]
      using left right retry leaf
        first_empty_only_append [OF left right] first_empty_only_nonempty [OF right]
      by simp
  qed
qed

lemma foldE_inv:
  assumes "foldE f xs b = Inr b'" and "P b"
    and "\<And>x c c'. x \<in> set xs \<Longrightarrow> P c \<Longrightarrow> f x c = Inr c' \<Longrightarrow> P c'"
  shows "P b'"
  using assms
proof (induction xs arbitrary: b)
  case Nil
  then show ?case by simp
next
  case (Cons x xs)
  from Cons.prems(1) obtain c where c: "f x b = Inr c" and r: "foldE f xs c = Inr b'"
    by (auto split: sum.splits)
  from Cons.prems(3) [OF _ Cons.prems(2) c] have "P c" by simp
  with r show ?case
    using Cons.IH [of c] Cons.prems(3) by auto
qed

lemma argmax_less: "xs \<noteq> [] \<Longrightarrow> argmax xs < length xs"
  by (induction xs rule: argmax.induct) (auto simp: Let_def)

lemma length_py_slice: "length (py_slice xs a b) \<le> length xs"
  by (simp add: py_slice_def Let_def)

lemma np_argmax_Inr: "np_argmax xs = Inr a \<Longrightarrow> a < length xs"
  by (auto simp: np_argmax_def argmax_less split: if_splits)

lemma boundary_step_range:
  assumes "boundary_step R m i L = Inr L'" and "i < m" and "m \<le> length R"
    and "in_plot (length R) L"
  shows "in_plot (length R) L'"
proof -
  from assms(1) obtain a b where
    a: "np_argmax (py_slice R 0 (int i + int m + 1)) = Inr a"
    and b: "np_argmax (py_slice R (int (length R) - 2 * int m + int i) (int (length R))) = Inr b"
    and L': "L' = (if b = i then (if a = i then L @ [int i] else L) @
                     [int (length R) - int m + int i]
                   else (if a = i then L @ [int i] else L))"
    by (auto simp: boundary_step_def Let_def split: sum.splits)
  from np_argmax_Inr [OF a] length_py_slice [of R 0 "int i + int m + 1"]
  have "a < length R" by linarith
  with assms(2,3,4) show ?thesis
    unfolding L' by (auto simp: in_plot_def)
qed

lemma interior_step_range:
  assumes "interior_step R m i L = Inr L'" and "i < length R" and "in_plot (length R) L"
  shows "in_plot (length R) L'"
  using assms by (auto simp: interior_step_def in_plot_def split: sum.splits if_splits)

lemma local_maxima_range:
  assumes "local_maxima R m = Inr L" and "m \<le> length R"
  shows "in_plot (length R) L"
proof -
  from assms(1) obtain L0 where b: "foldE (boundary_step R m) [0..<m] [] = Inr L0"
    and i: "foldE (interior_step R m) [m..<length R - m] L0 = Inr L"
    by (auto simp: local_maxima_def split: sum.splits)
  have "in_plot (length R) L0"
  proof (rule foldE_inv [OF b, where P = "in_plot (length R)"])
    show "in_plot (length R) []" by (simp add: in_plot_def)
  next
    fix x c c'
    assume "x \<in> set [0..<m]" and "in_plot (length R) c" and "boundary_step R m x c = Inr c'"
    then show "in_plot (length R) c'"
      using boundary_step_range [of R m x c c'] assms(2) by simp
  qed
  then show ?thesis
  proof (rule foldE_inv [OF i, where P = "in_plot (length R)"])
    fix x c c'
    assume "x \<in> set [m..<length R - m]" and "in_plot (length R) c"
      and "interior_step R m x c = Inr c'"
    then show "in_plot (length R) c'"
      using interior_step_range [of R m x c c'] by auto
  qed
qed

lemma split_stack_range:
  assumes "split_stack R mrr L = Inr L'"
  shows "set L' \<subseteq> set L" and "R \<noteq> []"
proof -
  from assms have v: "\<forall>x \<in> set L. valid_index (length R) x" and ne: "sort_key (at_index R) L \<noteq> []"
    and L': "L' = filter (\<lambda>x. fl_le (fl_scale mrr (at_index R (last (sort_key (at_index R) L))))
                              (to_fl (at_index R x))) (sort_key (at_index R) L)"
    by (auto simp: split_stack_def Let_def split: if_splits)
  from L' show "set L' \<subseteq> set L" by auto
  from ne have "L \<noteq> []" by auto
  then obtain x where "x \<in> set L" by (cases L) auto
  with v have "valid_index (length R) x" by simp
  then show "R \<noteq> []" by (auto simp: valid_index_def)
qed

lemma extraction_leaves_structure:
  assumes "extraction_leaves ord rd m sg sm mrr = Inr leaves" and "m \<le> length ord"
  shows "ascending_ranges 0 (int (length ord)) leaves"
    and "first_empty_only 0 leaves" and "ord \<noteq> []"
proof -
  from assms(1) obtain R L0 L where R: "reachability_plot ord rd = Inr R"
    and L0: "local_maxima R m = Inr L0" and L: "split_stack R mrr L0 = Inr L"
    and lv: "leaves = cluster_tree R m sg sm (0, int (length ord)) None L"
    by (auto simp: extraction_leaves_def split: sum.splits)
  from R have len: "length R = length ord"
    by (auto simp: reachability_plot_def split: if_splits)
  from split_stack_range [OF L] len show ne: "ord \<noteq> []" by auto
  from local_maxima_range [OF L0] assms(2) len split_stack_range(1) [OF L]
  have r: "\<forall>x \<in> set L. 0 \<le> x \<and> x < int (length ord)"
    by (auto simp: in_plot_def)
  from r show "ascending_ranges 0 (int (length ord)) leaves"
    unfolding lv
    using cluster_tree_ascending [of "(0, int (length ord))" L R m sg sm None] by simp
  from r ne show "first_empty_only 0 leaves"
    unfolding lv
    using cluster_tree_first_empty_only [of "(0, int (length ord))" L R m sg sm None] by simp
qed

lemma set_upto_pred: "set [a..b - 1] = {a..<b::int}"
  by auto

lemma label_step_Inr:
  assumes "label_step ord i j lab0 = Inr lab"
  shows "valid_index (length ord) j" and "at_index ord j < length lab0"
    and "lab = lab0[at_index ord j := int i]"
  using assms
  by (auto simp: label_step_def py_index_def split: sum.splits if_splits)

lemma label_range:
  assumes "foldE (label_step ord i) js lab0 = Inr lab"
  shows "length lab = length lab0 \<and>
    (\<forall>j \<in> set js. valid_index (length ord) j \<and> at_index ord j < length lab0) \<and>
    (\<forall>p < length lab0. lab ! p = (if p \<in> at_index ord ` set js then int i else lab0 ! p))"
  using assms
proof (induction js arbitrary: lab0)
  case Nil
  then show ?case by simp
next
  case (Cons j js)
  from Cons.prems obtain lab1 where s: "label_step ord i j lab0 = Inr lab1"
    and r: "foldE (label_step ord i) js lab1 = Inr lab"
    by (auto split: sum.splits)
  note st = label_step_Inr [OF s]
  from st(3) have len: "length lab1 = length lab0" by simp
  from Cons.IH [OF r] len st show ?case
    by (auto simp: nth_list_update)
qed

lemma label_leaf_Inr:
  assumes "label_leaf ord (k, l) lab0 = Inr lab"
  shows "length lab = length lab0"
    and "\<forall>j \<in> {fst l..<snd l}. valid_index (length ord) j \<and> at_index ord j < length lab0"
    and "\<forall>p < length lab0. lab ! p = (if p \<in> leaf_points ord l then int k else lab0 ! p)"
  using label_range [of ord k "[fst l..snd l - 1]" lab0 lab] assms
  unfolding label_leaf_def leaf_points_def set_upto_pred by simp_all

lemma label_leaves_from:
  assumes "foldE (label_leaf ord) (enumerate k leaves) lab0 = Inr lab"
  shows "length lab = length lab0 \<and>
    (\<forall>l \<in> set leaves. \<forall>j \<in> {fst l..<snd l}.
        valid_index (length ord) j \<and> at_index ord j < length lab0) \<and>
    (\<forall>p < length lab0.
        (p \<notin> (\<Union>l \<in> set leaves. leaf_points ord l) \<longrightarrow> lab ! p = lab0 ! p) \<and>
        (p \<in> (\<Union>l \<in> set leaves. leaf_points ord l) \<longrightarrow>
           (\<exists>i < length leaves. p \<in> leaf_points ord (leaves ! i) \<and> lab ! p = int (k + i))))"
  using assms
proof (induction leaves arbitrary: k lab0)
  case Nil
  then show ?case by simp
next
  case (Cons l ls)
  from Cons.prems obtain lab1 where s: "label_leaf ord (k, l) lab0 = Inr lab1"
    and r: "foldE (label_leaf ord) (enumerate (Suc k) ls) lab1 = Inr lab"
    by (auto split: sum.splits)
  note f = label_leaf_Inr [OF s]
  note ih = Cons.IH [OF r]
  from ih f(1) have len: "length lab = length lab0" by simp
  have valid: "\<forall>l' \<in> set (l # ls). \<forall>j \<in> {fst l'..<snd l'}.
      valid_index (length ord) j \<and> at_index ord j < length lab0"
    using ih f(1,2) by auto
  have pt: "(p \<notin> (\<Union>l' \<in> set (l # ls). leaf_points ord l') \<longrightarrow> lab ! p = lab0 ! p) \<and>
        (p \<in> (\<Union>l' \<in> set (l # ls). leaf_points ord l') \<longrightarrow>
           (\<exists>i < length (l # ls). p \<in> leaf_points ord ((l # ls) ! i) \<and> lab ! p = int (k + i)))"
    if p: "p < length lab0" for p
  proof (cases "p \<in> (\<Union>l' \<in> set ls. leaf_points ord l')")
    case True
    from p f(1) have pl: "p < length lab1" by simp
    from ih pl have "p \<in> (\<Union>l' \<in> set ls. leaf_points ord l') \<longrightarrow>
      (\<exists>i < length ls. p \<in> leaf_points ord (ls ! i) \<and> lab ! p = int (Suc k + i))"
      by blast
    with True obtain i where "i < length ls" "p \<in> leaf_points ord (ls ! i)"
      "lab ! p = int (Suc k + i)" by blast
    then have "Suc i < length (l # ls) \<and> p \<in> leaf_points ord ((l # ls) ! Suc i) \<and>
      lab ! p = int (k + Suc i)" by simp
    then have "\<exists>i < length (l # ls). p \<in> leaf_points ord ((l # ls) ! i) \<and> lab ! p = int (k + i)"
      by blast
    with True show ?thesis by auto
  next
    case False
    from p f(1) have pl: "p < length lab1" by simp
    from ih pl have "p \<notin> (\<Union>l' \<in> set ls. leaf_points ord l') \<longrightarrow> lab ! p = lab1 ! p"
      by blast
    with False have e: "lab ! p = lab1 ! p" by blast
    show ?thesis
    proof (cases "p \<in> leaf_points ord l")
      case True
      with e f(3) p have "lab ! p = int k" by simp
      with True have "0 < length (l # ls) \<and> p \<in> leaf_points ord ((l # ls) ! 0) \<and>
        lab ! p = int (k + 0)" by simp
      then have "\<exists>i < length (l # ls). p \<in> leaf_points ord ((l # ls) ! i) \<and> lab ! p = int (k + i)"
        by blast
      with True show ?thesis by auto
    next
      case nl: False
      with e f(3) p have "lab ! p = lab0 ! p" by simp
      with False nl show ?thesis by auto
    qed
  qed
  from len valid pt show ?case by blast
qed

lemma label_leaves_Inr:
  assumes "label_leaves ord leaves = Inr labels"
  shows "length labels = length ord"
    and "\<forall>l \<in> set leaves. \<forall>j \<in> {fst l..<snd l}.
        valid_index (length ord) j \<and> at_index ord j < length ord"
    and "\<forall>p < length ord. p \<notin> (\<Union>l \<in> set leaves. leaf_points ord l) \<longrightarrow> labels ! p = - 1"
    and "\<forall>p < length ord. p \<in> (\<Union>l \<in> set leaves. leaf_points ord l) \<longrightarrow>
           (\<exists>i < length leaves. p \<in> leaf_points ord (leaves ! i) \<and> labels ! p = int i)"
  using label_leaves_from [of ord 0 leaves "replicate (length ord) (- 1)" labels] assms
  unfolding label_leaves_def by simp_all

lemma ascending_ranges_nth:
  "ascending_ranges lo hi ls \<Longrightarrow> i < length ls \<Longrightarrow>
     lo \<le> fst (ls ! i) \<and> fst (ls ! i) \<le> snd (ls ! i) \<and> snd (ls ! i) \<le> hi"
proof (induction ls arbitrary: lo i)
  case Nil
  then show ?case by simp
next
  case (Cons l ls)
  show ?case
  proof (cases i)
    case 0
    with Cons.prems ascending_ranges_bounds [of "snd l" hi ls] show ?thesis by simp
  next
    case (Suc i')
    with Cons.prems Cons.IH [of "snd l" i'] show ?thesis by simp
  qed
qed

lemma ascending_ranges_order:
  "ascending_ranges lo hi ls \<Longrightarrow> i < j \<Longrightarrow> j < length ls \<Longrightarrow> snd (ls ! i) \<le> fst (ls ! j)"
proof (induction ls arbitrary: lo i j)
  case Nil
  then show ?case by simp
next
  case (Cons l ls)
  from Cons.prems(2) obtain j' where j: "j = Suc j'" by (cases j) auto
  show ?case
  proof (cases i)
    case 0
    with Cons.prems j ascending_ranges_nth [of "snd l" hi ls j'] show ?thesis by simp
  next
    case (Suc i')
    with Cons.prems j Cons.IH [of "snd l" i' j'] show ?thesis by simp
  qed
qed

lemma at_index_nonneg: "0 \<le> j \<Longrightarrow> at_index xs j = xs ! nat j"
  by (simp add: at_index_def)

lemma hierarchical_extraction_labels:
  "extraction_leaves ord rd m sg sm mrr = Inr leaves \<Longrightarrow>
   hierarchical_extraction ord rd m sg sm mrr = Inr labels \<Longrightarrow>
   label_leaves ord leaves = Inr labels"
  by (simp add: hierarchical_extraction_def)

lemma leaves_disjoint_labelled_if_returns:
  assumes lv: "extraction_leaves ord rd m sg sm mrr = Inr leaves"
    and lb: "hierarchical_extraction ord rd m sg sm mrr = Inr labels"
    and m: "m \<le> length ord"
  shows "(\<forall>i j. i < j \<and> j < length leaves \<longrightarrow>
            {fst (leaves ! i)..<snd (leaves ! i)} \<inter> {fst (leaves ! j)..<snd (leaves ! j)} = {}) \<and>
         (\<forall>l \<in> set leaves. {fst l..<snd l} \<subseteq> {0..<int (length ord)}) \<and>
         {p. p < length ord \<and> labels ! p \<noteq> - 1} =
           (\<lambda>j. ord ! nat j) ` (\<Union>l \<in> set leaves. {fst l..<snd l})"
proof (intro conjI)
  note asc = extraction_leaves_structure(1) [OF lv m]
  note lab = label_leaves_Inr [OF hierarchical_extraction_labels [OF lv lb]]
  show "\<forall>i j. i < j \<and> j < length leaves \<longrightarrow>
      {fst (leaves ! i)..<snd (leaves ! i)} \<inter> {fst (leaves ! j)..<snd (leaves ! j)} = {}"
    using ascending_ranges_order [OF asc] by fastforce
  show inside: "\<forall>l \<in> set leaves. {fst l..<snd l} \<subseteq> {0..<int (length ord)}"
  proof
    fix l assume "l \<in> set leaves"
    then obtain i where "i < length leaves" "leaves ! i = l"
      by (auto simp: in_set_conv_nth)
    with ascending_ranges_nth [OF asc, of i] show "{fst l..<snd l} \<subseteq> {0..<int (length ord)}"
      by auto
  qed
  have pts: "leaf_points ord l = (\<lambda>j. ord ! nat j) ` {fst l..<snd l}" if "l \<in> set leaves" for l
    unfolding leaf_points_def using inside that
    by (intro image_cong refl at_index_nonneg) auto
  then have cov: "(\<Union>l \<in> set leaves. leaf_points ord l) =
      (\<lambda>j. ord ! nat j) ` (\<Union>l \<in> set leaves. {fst l..<snd l})"
    by auto
  show "{p. p < length ord \<and> labels ! p \<noteq> - 1} =
      (\<lambda>j. ord ! nat j) ` (\<Union>l \<in> set leaves. {fst l..<snd l})"
  proof (intro equalityI subsetI)
    fix p assume "p \<in> {p. p < length ord \<and> labels ! p \<noteq> - 1}"
    with lab(3) have "p \<in> (\<Union>l \<in> set leaves. leaf_points ord l)" by auto
    with cov show "p \<in> (\<lambda>j. ord ! nat j) ` (\<Union>l \<in> set leaves. {fst l..<snd l})" by simp
  next
    fix p assume "p \<in> (\<lambda>j. ord ! nat j) ` (\<Union>l \<in> set leaves. {fst l..<snd l})"
    with cov have c: "p \<in> (\<Union>l \<in> set leaves. leaf_points ord l)" by simp
    then obtain l j where l: "l \<in> set leaves" "j \<in> {fst l..<snd l}" "p = at_index ord j"
      by (auto simp: leaf_points_def)
    with lab(2) have p: "p < length ord" by auto
    with lab(4) c obtain i where "labels ! p = int i" by blast
    with p show "p \<in> {p. p < length ord \<and> labels ! p \<noteq> - 1}" by simp
  qed
qed

lemma first_empty_only_indices:
  assumes "first_empty_only 0 leaves"
  shows "{i. i < length leaves \<and> fst (leaves ! i) < snd (leaves ! i)} = {0..<length leaves} \<or>
    (leaves \<noteq> [] \<and> leaves ! 0 = (0, 0) \<and>
     {i. i < length leaves \<and> fst (leaves ! i) < snd (leaves ! i)} = {1..<length leaves})"
proof (cases "\<forall>l \<in> set leaves. fst l < snd l")
  case True
  then have "{i. i < length leaves \<and> fst (leaves ! i) < snd (leaves ! i)} = {0..<length leaves}"
    by auto
  then show ?thesis ..
next
  case False
  with assms obtain ls where ls: "leaves = (0, 0) # ls" "\<forall>l \<in> set ls. fst l < snd l"
    by (auto simp: first_empty_only_def)
  have "(i < length leaves \<and> fst (leaves ! i) < snd (leaves ! i)) = (1 \<le> i \<and> i < length leaves)"
    for i
  proof (cases i)
    case 0
    with ls show ?thesis by simp
  next
    case (Suc i')
    with ls show ?thesis by auto
  qed
  then have "{i. i < length leaves \<and> fst (leaves ! i) < snd (leaves ! i)} =
      {i. 1 \<le> i \<and> i < length leaves}"
    by (rule Collect_cong)
  also have "\<dots> = {1..<length leaves}"
    by (simp add: atLeastLessThan_def atLeast_def lessThan_def Int_def)
  finally show ?thesis using ls(1) by simp
qed

lemma labels_leaf_indices_if_returns:
  assumes lv: "extraction_leaves ord rd m sg sm mrr = Inr leaves"
    and lb: "hierarchical_extraction ord rd m sg sm mrr = Inr labels"
    and m: "m \<le> length ord" and d: "distinct ord"
  shows "length labels = length ord \<and>
    (\<forall>v \<in> set labels. v = - 1 \<or> (0 \<le> v \<and> v < int (length leaves))) \<and>
    {v \<in> set labels. 0 \<le> v} =
      int ` {i. i < length leaves \<and> fst (leaves ! i) < snd (leaves ! i)} \<and>
    ({i. i < length leaves \<and> fst (leaves ! i) < snd (leaves ! i)} = {0..<length leaves} \<or>
     (leaves \<noteq> [] \<and> leaves ! 0 = (0, 0) \<and>
      {i. i < length leaves \<and> fst (leaves ! i) < snd (leaves ! i)} = {1..<length leaves}))"
proof (intro conjI)
  note asc = extraction_leaves_structure(1) [OF lv m]
  note lab = label_leaves_Inr [OF hierarchical_extraction_labels [OF lv lb]]
  show len: "length labels = length ord" by (rule lab(1))
  have entry: "labels ! p = - 1 \<or>
      (\<exists>i < length leaves. p \<in> leaf_points ord (leaves ! i) \<and> labels ! p = int i)"
    if "p < length ord" for p
    using lab(3,4) that by blast
  show "\<forall>v \<in> set labels. v = - 1 \<or> (0 \<le> v \<and> v < int (length leaves))"
  proof
    fix v assume "v \<in> set labels"
    then obtain p where "p < length labels" "labels ! p = v"
      by (auto simp: in_set_conv_nth)
    with entry [of p] len show "v = - 1 \<or> (0 \<le> v \<and> v < int (length leaves))"
      by auto
  qed
  show "{v \<in> set labels. 0 \<le> v} =
      int ` {i. i < length leaves \<and> fst (leaves ! i) < snd (leaves ! i)}"
  proof (intro equalityI subsetI)
    fix v assume "v \<in> {v \<in> set labels. 0 \<le> v}"
    then obtain p where p: "p < length labels" "labels ! p = v" and v: "0 \<le> v"
      by (auto simp: in_set_conv_nth)
    with entry [of p] len obtain i where i: "i < length leaves"
      "p \<in> leaf_points ord (leaves ! i)" "v = int i"
      by auto
    from i(2) have "fst (leaves ! i) < snd (leaves ! i)"
      by (auto simp: leaf_points_def)
    with i show "v \<in> int ` {i. i < length leaves \<and> fst (leaves ! i) < snd (leaves ! i)}"
      by simp
  next
    fix v assume "v \<in> int ` {i. i < length leaves \<and> fst (leaves ! i) < snd (leaves ! i)}"
    then obtain i where i: "i < length leaves" "fst (leaves ! i) < snd (leaves ! i)" "v = int i"
      by auto
    let ?j = "fst (leaves ! i)"
    let ?p = "at_index ord ?j"
    from i have jr: "?j \<in> {fst (leaves ! i)..<snd (leaves ! i)}" by simp
    from i(1) have mem: "leaves ! i \<in> set leaves" by simp
    from lab(2) mem jr have p: "?p < length ord" by blast
    from jr have "?p \<in> leaf_points ord (leaves ! i)" by (simp add: leaf_points_def)
    with mem have "?p \<in> (\<Union>l \<in> set leaves. leaf_points ord l)" by blast
    with lab(4) p obtain i' where i': "i' < length leaves"
      "?p \<in> leaf_points ord (leaves ! i')" "labels ! ?p = int i'"
      by blast
    from i'(2) obtain j' where j': "j' \<in> {fst (leaves ! i')..<snd (leaves ! i')}"
      "?p = at_index ord j'"
      by (auto simp: leaf_points_def)
    from ascending_ranges_nth [OF asc i(1)] jr
    have j0: "0 \<le> ?j" "?j < int (length ord)" by auto
    from ascending_ranges_nth [OF asc i'(1)] j'(1)
    have j0': "0 \<le> j'" "j' < int (length ord)" by auto
    from j'(2) j0 j0' have "ord ! nat ?j = ord ! nat j'"
      by (simp add: at_index_nonneg)
    with d j0 j0' have "nat ?j = nat j'"
      by (simp add: nth_eq_iff_index_eq)
    with j0 j0' have same: "j' = ?j" by simp
    have "i' = i"
    proof (rule ccontr)
      assume ne: "i' \<noteq> i"
      show False
      proof (cases "i' < i")
        case True
        from ascending_ranges_order [OF asc True i(1)] j'(1) jr same show False by simp
      next
        case False
        with ne have "i < i'" by simp
        from ascending_ranges_order [OF asc this i'(1)] j'(1) jr same show False by simp
      qed
    qed
    with i' i(3) have "labels ! ?p = v" by simp
    moreover from p len have "?p < length labels" by simp
    ultimately have "v \<in> set labels" by (metis nth_mem)
    with i(3) show "v \<in> {v \<in> set labels. 0 \<le> v}" by simp
  qed
  from first_empty_only_indices [OF extraction_leaves_structure(2) [OF lv m]]
  show "{i. i < length leaves \<and> fst (leaves ! i) < snd (leaves ! i)} = {0..<length leaves} \<or>
     (leaves \<noteq> [] \<and> leaves ! 0 = (0, 0) \<and>
      {i. i < length leaves \<and> fst (leaves ! i) < snd (leaves ! i)} = {1..<length leaves})" .
qed

lemma foldE_total:
  assumes "P b"
    and "\<And>x c. x \<in> set xs \<Longrightarrow> P c \<Longrightarrow> \<exists>c'. f x c = Inr c' \<and> P c'"
  shows "\<exists>b'. foldE f xs b = Inr b' \<and> P b'"
  using assms
proof (induction xs arbitrary: b)
  case Nil
  then show ?case by simp
next
  case (Cons x xs)
  from Cons.prems(2) [of x b] Cons.prems(1) obtain c where c: "f x b = Inr c" "P c" by auto
  from Cons.IH [OF c(2)] Cons.prems(2) obtain b' where "foldE f xs c = Inr b'" "P b'"
    by auto
  with c show ?case by simp
qed

lemma py_slice_nonempty:
  "slice_bound (length xs) a < slice_bound (length xs) b \<Longrightarrow> py_slice xs a b \<noteq> []"
  by (auto simp: py_slice_def Let_def slice_bound_def split: if_splits)

lemma np_argmax_total: "xs \<noteq> [] \<Longrightarrow> \<exists>a. np_argmax xs = Inr a"
  by (simp add: np_argmax_def)

lemma boundary_step_total:
  assumes "R \<noteq> []" and "i < m"
  shows "\<exists>L'. boundary_step R m i L = Inr L'"
proof -
  have "slice_bound (length R) 0 < slice_bound (length R) (int i + int m + 1)"
    using assms(1) by (cases R) (auto simp: slice_bound_def)
  from np_argmax_total [OF py_slice_nonempty [OF this]]
  obtain a where a: "np_argmax (py_slice R 0 (int i + int m + 1)) = Inr a" ..
  have "slice_bound (length R) (int (length R) - 2 * int m + int i) <
      slice_bound (length R) (int (length R))"
    using assms by (cases R) (auto simp: slice_bound_def)
  from np_argmax_total [OF py_slice_nonempty [OF this]]
  obtain b where
    "np_argmax (py_slice R (int (length R) - 2 * int m + int i) (int (length R))) = Inr b" ..
  with a show ?thesis by (simp add: boundary_step_def Let_def)
qed

lemma interior_step_total:
  assumes "m \<le> i" and "i < length R - m"
  shows "\<exists>L'. interior_step R m i L = Inr L'"
proof -
  have "slice_bound (length R) (int i - int m) < slice_bound (length R) (int i + int m + 1)"
    using assms by (auto simp: slice_bound_def)
  from np_argmax_total [OF py_slice_nonempty [OF this]]
  obtain a where "np_argmax (py_slice R (int i - int m) (int i + int m + 1)) = Inr a" ..
  then show ?thesis by (simp add: interior_step_def)
qed

lemma local_maxima_total:
  assumes "R \<noteq> []"
  shows "\<exists>L. local_maxima R m = Inr L"
proof -
  from foldE_total [of "\<lambda>_. True" "[]" "[0..<m]" "boundary_step R m"]
    boundary_step_total [OF assms]
  obtain L0 where L0: "foldE (boundary_step R m) [0..<m] [] = Inr L0" by auto
  from foldE_total [of "\<lambda>_. True" L0 "[m..<length R - m]" "interior_step R m"]
    interior_step_total [of m _ R]
  obtain L where "foldE (interior_step R m) [m..<length R - m] L0 = Inr L" by auto
  with L0 show ?thesis by (simp add: local_maxima_def)
qed

lemma split_stack_total:
  assumes "in_plot (length R) L" and "L \<noteq> []"
  shows "\<exists>L'. split_stack R mrr L = Inr L'"
proof -
  from assms(1) have "\<forall>x \<in> set L. valid_index (length R) x"
    by (auto simp: in_plot_def valid_index_def)
  moreover from assms(2) have "sort_key (at_index R) L \<noteq> []"
    by (metis length_sort length_0_conv)
  ultimately show ?thesis by (simp add: split_stack_def Let_def)
qed

lemma label_step_total:
  assumes "0 \<le> j" and "j < int (length ord)" and "\<forall>i \<in> set ord. i < n" and "length lab = n"
  shows "\<exists>lab'. label_step ord i j lab = Inr lab' \<and> length lab' = n"
proof -
  from assms(1,2) have v: "valid_index (length ord) j" and a: "at_index ord j = ord ! nat j"
    and "nat j < length ord"
    by (auto simp: valid_index_def at_index_def)
  with assms(3,4) have "at_index ord j < length lab" by simp
  with v assms(4) show ?thesis
    by (simp add: label_step_def py_index_def)
qed

lemma label_leaf_total:
  assumes "0 \<le> fst l" and "snd l \<le> int (length ord)" and "\<forall>i \<in> set ord. i < n"
    and "length lab = n"
  shows "\<exists>lab'. label_leaf ord (k, l) lab = Inr lab' \<and> length lab' = n"
  unfolding label_leaf_def fst_conv snd_conv
proof (rule foldE_total [where P = "\<lambda>lab. length lab = n"])
  show "length lab = n" by (rule assms(4))
next
  fix j and c :: "int list"
  assume "j \<in> set [fst l..snd l - 1]" and "length c = n"
  with assms(1,2,3) show "\<exists>c'. label_step ord k j c = Inr c' \<and> length c' = n"
    using label_step_total [of j ord n c k] by auto
qed

lemma label_leaves_total:
  assumes "ascending_ranges 0 (int (length ord)) leaves" and "\<forall>i \<in> set ord. i < length ord"
  shows "\<exists>labels. label_leaves ord leaves = Inr labels"
proof -
  have "\<exists>b'. foldE (label_leaf ord) (enumerate 0 leaves) (replicate (length ord) (- 1)) = Inr b' \<and>
      length b' = length ord"
  proof (rule foldE_total [where P = "\<lambda>lab. length lab = length ord"])
    show "length (replicate (length ord) (- 1 :: int)) = length ord" by simp
  next
    fix x and c :: "int list"
    assume x: "x \<in> set (enumerate 0 leaves)" and c: "length c = length ord"
    obtain k l where kl: "x = (k, l)" by (cases x)
    with x have "k < length leaves" "leaves ! k = l"
      by (auto simp: in_set_enumerate_eq)
    with ascending_ranges_nth [OF assms(1), of k]
    have "0 \<le> fst l" "snd l \<le> int (length ord)" by auto
    from label_leaf_total [OF this assms(2) c, of k] kl
    show "\<exists>c'. label_leaf ord x c = Inr c' \<and> length c' = length ord" by simp
  qed
  then show ?thesis by (auto simp: label_leaves_def)
qed

lemma extraction_returns:
  assumes ord: "\<forall>i \<in> set ord. i < length ord" and rd: "length rd = length ord"
    and m: "m \<le> length ord"
    and L: "local_maxima (map (\<lambda>i. rd ! i) ord) m = Inr L" and ne: "L \<noteq> []"
  shows "\<exists>leaves labels. extraction_leaves ord rd m sg sm mrr = Inr leaves \<and>
           hierarchical_extraction ord rd m sg sm mrr = Inr labels"
proof -
  let ?R = "map (\<lambda>i. rd ! i) ord"
  from ord rd have R: "reachability_plot ord rd = Inr ?R"
    by (simp add: reachability_plot_def)
  from m have "m \<le> length ?R" by simp
  from local_maxima_range [OF L this] have ip: "in_plot (length ?R) L" .
  from split_stack_total [OF ip ne] obtain L' where L': "split_stack ?R mrr L = Inr L'" ..
  let ?leaves = "cluster_tree ?R m sg sm (0, int (length ord)) None L'"
  from R L L' have lv: "extraction_leaves ord rd m sg sm mrr = Inr ?leaves"
    by (simp add: extraction_leaves_def)
  from extraction_leaves_structure(1) [OF lv m] label_leaves_total [OF _ ord]
  obtain labels where "label_leaves ord ?leaves = Inr labels" by blast
  with lv have "hierarchical_extraction ord rd m sg sm mrr = Inr labels"
    by (simp add: hierarchical_extraction_def)
  with lv show ?thesis by blast
qed

text \<open>
  What holds of the leaves on every return of the extraction, for \<open>min_cluster_size\<close> at
  most the number of points: their ranges are pairwise disjoint and lie inside
  \<open>[0, n)\<close>, and the points with a label other than \<open>-1\<close> are exactly the points
  \<^verbatim>\<open>ordering[j]\<close> for \<open>j\<close> in the range of some leaf. The extraction returns when the
  ordering holds point indices, there is a reachability for each point, and the list of
  local maxima is not empty.
\<close>

lemma leaves_disjoint_and_labelled:
  assumes "m \<le> length ord"
  shows "(extraction_leaves ord rd m sg sm mrr = Inr leaves \<and>
          hierarchical_extraction ord rd m sg sm mrr = Inr labels \<longrightarrow>
            (\<forall>i j. i < j \<and> j < length leaves \<longrightarrow>
               {fst (leaves ! i)..<snd (leaves ! i)} \<inter>
               {fst (leaves ! j)..<snd (leaves ! j)} = {}) \<and>
            (\<forall>l \<in> set leaves. {fst l..<snd l} \<subseteq> {0..<int (length ord)}) \<and>
            {p. p < length ord \<and> labels ! p \<noteq> - 1} =
              (\<lambda>j. ord ! nat j) ` (\<Union>l \<in> set leaves. {fst l..<snd l})) \<and>
         ((\<forall>i \<in> set ord. i < length ord) \<and> length rd = length ord \<and>
          local_maxima (map (\<lambda>i. rd ! i) ord) m = Inr L \<and> L \<noteq> [] \<longrightarrow>
            (\<exists>leaves' labels'. extraction_leaves ord rd m sg sm mrr = Inr leaves' \<and>
               hierarchical_extraction ord rd m sg sm mrr = Inr labels'))"
  using leaves_disjoint_labelled_if_returns [of ord rd m sg sm mrr leaves labels]
    extraction_returns [of ord rd m L sg sm mrr] assms
  by blast

text \<open>
  C8, amended. Take an ordering without duplicates and \<open>min_cluster_size\<close> at most the
  number of points. Whenever the extraction returns, the labels are as many as the
  points, every label is \<open>-1\<close> or the index of a leaf, and the labels from 0 on that
  occur are exactly the indices of the leaves with a non-empty range: all the indices,
  or all but index 0 when the first leaf is the empty range \<open>(0, 0)\<close>. The extraction does
  return when the ordering holds point indices, there is a reachability for each point,
  and the list of local maxima is not empty.
\<close>

theorem labels_are_leaf_indices:
  assumes "m \<le> length ord" and "distinct ord"
  shows "(extraction_leaves ord rd m sg sm mrr = Inr leaves \<and>
          hierarchical_extraction ord rd m sg sm mrr = Inr labels \<longrightarrow>
            length labels = length ord \<and>
            (\<forall>v \<in> set labels. v = - 1 \<or> (0 \<le> v \<and> v < int (length leaves))) \<and>
            {v \<in> set labels. 0 \<le> v} =
              int ` {i. i < length leaves \<and> fst (leaves ! i) < snd (leaves ! i)} \<and>
            ({i. i < length leaves \<and> fst (leaves ! i) < snd (leaves ! i)} =
               {0..<length leaves} \<or>
             (leaves \<noteq> [] \<and> leaves ! 0 = (0, 0) \<and>
              {i. i < length leaves \<and> fst (leaves ! i) < snd (leaves ! i)} =
                {1..<length leaves}))) \<and>
         ((\<forall>i \<in> set ord. i < length ord) \<and> length rd = length ord \<and>
          local_maxima (map (\<lambda>i. rd ! i) ord) m = Inr L \<and> L \<noteq> [] \<longrightarrow>
            (\<exists>leaves' labels'. extraction_leaves ord rd m sg sm mrr = Inr leaves' \<and>
               hierarchical_extraction ord rd m sg sm mrr = Inr labels'))"
  using labels_leaf_indices_if_returns [of ord rd m sg sm mrr leaves labels]
    extraction_returns [of ord rd m L sg sm mrr] assms
  by blast

lemma leaves_same3:
  "extraction_leaves [0, 1, 2] [Fin 0, Fin 0, Fin 0] 2 0.75 0.4 0.1 = Inr [(0, 0), (1, 3)]"
  by code_simp

lemma extract_same3:
  "hierarchical_extraction [0, 1, 2] [Fin 0, Fin 0, Fin 0] 2 0.75 0.4 0.1 = Inr [- 1, 1, 1]"
  by code_simp

lemma optics_same3:
  "optics line_dist [0, 0, 0] PInf 2 (Str ''hierarchical'') [] =
     Inr ([Some 0, Some 0, None], [0, 1, 2], [Fin 0, Fin 0, Fin 0], [- 1, 1, 1])"
  by code_simp

text \<open>
  C4. The leaves of the code do not cover \<open>[0, n)\<close>. For the points 0, 2, 3, 1, 1 on a
  line with \<open>min_samples = 3\<close> the entry point returns the labels 0, -1, -1, 1, 1: the
  leaves are \<open>[0, 1)\<close> and \<open>[3, 5)\<close>, and position 1 of \<open>[0, 5)\<close> is in neither. The
  candidates are the positions 2, 1 and 3. Positions 2 and 3 come from the tail test of
  line 66 (see C2): the window of either is the whole plot, whose arg-max is position 1.
  They lie less than \<open>min_cluster_size\<close> from position 1, so after the splits at 3 and
  at 1 the child \<open>[1, 3)\<close> fails the size test of line 111 and belongs to no leaf.
\<close>

theorem leaves_do_not_cover:
  "optics line_dist [0, 2, 3, 1, 1] PInf 3 (Str ''hierarchical'') [] =
     Inr ([Some 2, Some 1, Some 2, Some 1, None], [0, 1, 2, 3, 4],
          [Fin 0, Fin 2, Fin 1, Fin 2, Fin 1], [0, - 1, - 1, 1, 1]) \<and>
   local_maxima [Fin 0, Fin 2, Fin 1, Fin 2, Fin 1] 3 = Inr [2, 1, 3] \<and>
   np_argmax (py_slice [Fin 0, Fin 2, Fin 1, Fin 2, Fin 1] 0 5) = Inr 1 \<and>
   extraction_leaves [0, 1, 2, 3, 4] [Fin 0, Fin 2, Fin 1, Fin 2, Fin 1] 3 0.75 0.4 0.1 =
     Inr [(0, 1), (3, 5)] \<and>
   (1::int) \<in> {0..<5} \<and> (1::int) \<notin> {0..<1} \<union> {3..<5}"
  by (intro conjI) (code_simp, code_simp, code_simp, rule leaves_line5, simp_all)

text \<open>
  C8, as stated, fails. For three equal points with \<open>min_samples = 2\<close> the entry point
  returns the labels -1, 1, 1: label 1 occurs and label 0 does not. Position 0 is
  accepted as a split, its empty left child \<open>(0, 0)\<close> is kept as leaf 0, and no point
  lies in it.
\<close>

theorem labels_start_at_one:
  "optics line_dist [0, 0, 0] PInf 2 (Str ''hierarchical'') [] =
     Inr ([Some 0, Some 0, None], [0, 1, 2], [Fin 0, Fin 0, Fin 0], [- 1, 1, 1]) \<and>
   hierarchical_extraction [0, 1, 2] [Fin 0, Fin 0, Fin 0] 2 0.75 0.4 0.1 = Inr [- 1, 1, 1] \<and>
   (1::int) \<in> set [- 1, 1, 1] \<and> (0::int) \<notin> set [- 1, 1, 1]"
  using optics_same3 extract_same3 by simp

lemma maxima_same3:
  "local_maxima (map (\<lambda>i. [Fin 0, Fin 0, Fin 0] ! i) [0, 1, 2]) 2 = Inr [0, 1]"
  by code_simp

theorem labels_are_leaf_indices_witness:
  "(2::nat) \<le> length [0::nat, 1, 2] \<and> distinct [0::nat, 1, 2] \<and>
   extraction_leaves [0, 1, 2] [Fin 0, Fin 0, Fin 0] 2 0.75 0.4 0.1 = Inr [(0, 0), (1, 3)] \<and>
   hierarchical_extraction [0, 1, 2] [Fin 0, Fin 0, Fin 0] 2 0.75 0.4 0.1 = Inr [- 1, 1, 1] \<and>
   local_maxima (map (\<lambda>i. [Fin 0, Fin 0, Fin 0] ! i) [0, 1, 2]) 2 = Inr [0, 1] \<and>
   length [- 1, 1, 1::int] = length [0::nat, 1, 2] \<and>
   {v \<in> set [- 1, 1, 1::int]. 0 \<le> v} =
     int ` {i. i < length [(0::int, 0::int), (1, 3)] \<and>
               fst ([(0::int, 0::int), (1, 3)] ! i) < snd ([(0::int, 0::int), (1, 3)] ! i)}"
proof -
  have m: "(2::nat) \<le> length [0::nat, 1, 2]" by simp
  have d: "distinct [0::nat, 1, 2]" by simp
  note t = labels_are_leaf_indices [OF m d,
      where rd = "[Fin 0, Fin 0, Fin 0]" and sg = "0.75" and sm = "0.4" and mrr = "0.1"
        and leaves = "[(0, 0), (1, 3)]" and labels = "[- 1, 1, 1]" and L = "[0, 1]"]
  note P = mp [OF conjunct1 [OF t] conjI [OF leaves_same3 extract_same3]]
  note len = conjunct1 [OF P]
  note eq = conjunct1 [OF conjunct2 [OF conjunct2 [OF P]]]
  from len eq leaves_same3 extract_same3 maxima_same3 m d show ?thesis
    by (intro conjI)
qed

end
